theory Spec2Isabelle
  imports Complex_Main "HOL-Library.Monad_Syntax" "HOL-Library.Multiset" "HOL-Library.Log_Nat"
begin

section \<open>GitHub commit statistics: the model of \<^verbatim>\<open>github_stats.py\<close>\<close>

text \<open>
  The development embeds the class \<^verbatim>\<open>GitHubStats\<close>: the paginated repository and commit
  listings (\<^verbatim>\<open>get_org_repos\<close>, \<^verbatim>\<open>get_user_commits\<close>), the per-commit aggregation
  (\<^verbatim>\<open>get_commit_stats\<close>) and the comparison of two months (\<^verbatim>\<open>analyze_productivity\<close>).

  Conventions of the model.
  \<^item> Python's unbounded integers are \<open>int\<close>.
  \<^item> A Python float is the real number it denotes, and \<^verbatim>\<open>float('inf')\<close> is the
    constructor \<open>PInf\<close>. The weekend percentage of line 202 is computed in double
    precision (\<open>round_double\<close>: nearest double, ties to even), since a property of it
    depends on the rounding. The other float fields are computed exactly: no property
    stated of them depends on rounding.
  \<^item> A raised exception is the \<open>Inl\<close> branch of a sum; a loop that may run forever returns
    an \<open>option\<close>, with \<open>None\<close> for not returning.
  \<^item> A dict is an association list in insertion order, as Python dicts iterate.
  \<^item> Logging has no effect on any result and is left out.
\<close>

datatype error = Exception | ValueError | IndexError | ZeroDivisionError | StatisticsError

datatype pyfloat = Finite real | PInf

subsection \<open>\<^verbatim>\<open>datetime\<close>: construction, ordinals, weekday\<close>

record datetime =
  dt_year :: int
  dt_month :: int
  dt_day :: int
  dt_hour :: int
  dt_minute :: int
  dt_second :: int

definition is_leap :: "int \<Rightarrow> bool" where
  "is_leap y = (y mod 4 = 0 \<and> (y mod 100 \<noteq> 0 \<or> y mod 400 = 0))"

definition days_in_month :: "int \<Rightarrow> int \<Rightarrow> int" where
  "days_in_month y m =
     (if m = 2 \<and> is_leap y then 29
      else [31, 28, 31, 30, 31, 30, 31, 31, 30, 31, 30, 31] ! nat (m - 1))"

definition days_before_year :: "int \<Rightarrow> int" where
  "days_before_year y = (let y1 = y - 1 in y1 * 365 + y1 div 4 - y1 div 100 + y1 div 400)"

definition days_before_month :: "int \<Rightarrow> int \<Rightarrow> int" where
  "days_before_month y m =
     [0, 31, 59, 90, 120, 151, 181, 212, 243, 273, 304, 334] ! nat (m - 1)
       + (if m > 2 \<and> is_leap y then 1 else 0)"

text \<open>
  \<^verbatim>\<open>datetime(year, month, day, hour, minute, second)\<close>: the constructor raises ValueError
  outside the ranges below (\<open>None\<close> here).
\<close>

definition datetime_new :: "int \<Rightarrow> int \<Rightarrow> int \<Rightarrow> int \<Rightarrow> int \<Rightarrow> int \<Rightarrow> datetime option" where
  "datetime_new y m d hh mm ss =
     (if 1 \<le> y \<and> y \<le> 9999 \<and> 1 \<le> m \<and> m \<le> 12 \<and> 1 \<le> d \<and> d \<le> days_in_month y m
         \<and> 0 \<le> hh \<and> hh \<le> 23 \<and> 0 \<le> mm \<and> mm \<le> 59 \<and> 0 \<le> ss \<and> ss \<le> 59
      then Some \<lparr>dt_year = y, dt_month = m, dt_day = d,
                 dt_hour = hh, dt_minute = mm, dt_second = ss\<rparr>
      else None)"

definition toordinal :: "datetime \<Rightarrow> int" where
  "toordinal t = days_before_year (dt_year t) + days_before_month (dt_year t) (dt_month t) + dt_day t"

text \<open>\<^verbatim>\<open>date.weekday()\<close>: Monday is 0, Saturday 5, Sunday 6.\<close>

definition weekday :: "datetime \<Rightarrow> int" where
  "weekday t = (toordinal t + 6) mod 7"

text \<open>\<^verbatim>\<open>(a - b).total_seconds()\<close> for two datetimes of second precision.\<close>

definition seconds_of :: "datetime \<Rightarrow> int" where
  "seconds_of t = toordinal t * 86400 + dt_hour t * 3600 + dt_minute t * 60 + dt_second t"

definition total_seconds :: "datetime \<Rightarrow> datetime \<Rightarrow> real" where
  "total_seconds a b = real_of_int (seconds_of a - seconds_of b)"

subsection \<open>\<^verbatim>\<open>strptime\<close> and \<^verbatim>\<open>strftime\<close> for the two formats of the source\<close>

text \<open>
  \<^verbatim>\<open>datetime.strptime\<close> compiles the format into a regular expression, matched without
  regard to case: \<^verbatim>\<open>%Y\<close> is four digits; \<^verbatim>\<open>%m\<close>, \<^verbatim>\<open>%d\<close>, \<^verbatim>\<open>%H\<close>, \<^verbatim>\<open>%M\<close>, \<^verbatim>\<open>%S\<close> are
  two digits in the directive's range or else one digit (\<^verbatim>\<open>%d\<close> also a blank and a digit);
  the whole string must be consumed and the fields must form a date. Any failure is a
  ValueError (\<open>None\<close> here). Characters are bytes, so only ASCII digits are digits.
\<close>

definition is_digit :: "char \<Rightarrow> bool" where
  "is_digit c = (c \<in> set ''0123456789'')"

definition digit_val :: "char \<Rightarrow> int" where
  "digit_val c = int (of_char c) - 48"

fun parse_Y :: "string \<Rightarrow> (int \<times> string) option" where
  "parse_Y (a # b # c # d # rest) =
     (if is_digit a \<and> is_digit b \<and> is_digit c \<and> is_digit d
      then Some (1000 * digit_val a + 100 * digit_val b + 10 * digit_val c + digit_val d, rest)
      else None)"
| "parse_Y _ = None"

fun parse_num :: "int \<Rightarrow> int \<Rightarrow> string \<Rightarrow> (int \<times> string) option" where
  "parse_num lo hi (a # b # rest) =
     (if is_digit a \<and> is_digit b \<and> lo \<le> 10 * digit_val a + digit_val b
          \<and> 10 * digit_val a + digit_val b \<le> hi
      then Some (10 * digit_val a + digit_val b, rest)
      else if is_digit a \<and> lo \<le> digit_val a then Some (digit_val a, b # rest)
      else None)"
| "parse_num lo hi [a] = (if is_digit a \<and> lo \<le> digit_val a then Some (digit_val a, []) else None)"
| "parse_num lo hi [] = None"

definition parse_d :: "string \<Rightarrow> (int \<times> string) option" where
  "parse_d s =
     (case parse_num 1 31 s of
        Some r \<Rightarrow> Some r
      | None \<Rightarrow>
          (case s of
             a # b # rest \<Rightarrow>
               if a = CHR '' '' \<and> is_digit b \<and> 1 \<le> digit_val b then Some (digit_val b, rest)
               else None
           | _ \<Rightarrow> None))"

fun expect :: "string \<Rightarrow> string \<Rightarrow> string option" where
  "expect cs (x # xs) = (if x \<in> set cs then Some xs else None)"
| "expect cs [] = None"

text \<open>\<^verbatim>\<open>datetime.strptime(day, '%Y-%m-%d')\<close>\<close>

definition strptime_ymd :: "string \<Rightarrow> datetime option" where
  "strptime_ymd s =
     do {
       (y, s1) \<leftarrow> parse_Y s;
       s2 \<leftarrow> expect ''-'' s1;
       (m, s3) \<leftarrow> parse_num 1 12 s2;
       s4 \<leftarrow> expect ''-'' s3;
       (d, s5) \<leftarrow> parse_d s4;
       if s5 = [] then datetime_new y m d 0 0 0 else None
     }"

text \<open>\<^verbatim>\<open>datetime.strptime(date, '%Y-%m-%dT%H:%M:%SZ')\<close>\<close>

definition strptime_iso :: "string \<Rightarrow> datetime option" where
  "strptime_iso s =
     do {
       (y, s1) \<leftarrow> parse_Y s;
       s2 \<leftarrow> expect ''-'' s1;
       (m, s3) \<leftarrow> parse_num 1 12 s2;
       s4 \<leftarrow> expect ''-'' s3;
       (d, s5) \<leftarrow> parse_d s4;
       s6 \<leftarrow> expect ''Tt'' s5;
       (hh, s7) \<leftarrow> parse_num 0 23 s6;
       s8 \<leftarrow> expect '':'' s7;
       (mm, s9) \<leftarrow> parse_num 0 59 s8;
       s10 \<leftarrow> expect '':'' s9;
       (ss, s11) \<leftarrow> parse_num 0 61 s10;
       s12 \<leftarrow> expect ''Zz'' s11;
       if s12 = [] then datetime_new y m d hh mm ss else None
     }"

text \<open>
  \<^verbatim>\<open>commit_date.strftime('%Y-%m-%d')\<close>, with the year padded to four digits (every
  platform agrees on this from the year 1000 on).
\<close>

definition digit_char :: "int \<Rightarrow> char" where
  "digit_char v = ''0123456789'' ! nat v"

definition fmt2 :: "int \<Rightarrow> string" where
  "fmt2 v = [digit_char (v div 10), digit_char (v mod 10)]"

definition strftime_ymd :: "datetime \<Rightarrow> string" where
  "strftime_ymd t =
     fmt2 (dt_year t div 100) @ fmt2 (dt_year t mod 100) @ ''-'' @ fmt2 (dt_month t)
       @ ''-'' @ fmt2 (dt_day t)"

subsection \<open>Buckets and period statistics\<close>

text \<open>
  A bucket is the dict \<^verbatim>\<open>{'additions': _, 'deletions': _, 'commits': _}\<close>. The dict that
  \<^verbatim>\<open>get_commit_stats\<close> returns as third component is a \<open>snapshot\<close>; \<^verbatim>\<open>main\<close> adds the keys
  \<^verbatim>\<open>'additions'\<close> and \<^verbatim>\<open>'deletions'\<close> holding the two totals before it calls
  \<^verbatim>\<open>analyze_productivity\<close>: these are the fields \<open>total_additions\<close> and \<open>total_deletions\<close> of
  \<open>period_stats\<close>.
\<close>

record bucket =
  additions :: int
  deletions :: int
  commits :: int

record snapshot =
  repo_stats :: "(string \<times> bucket) list"
  daily_stats :: "(string \<times> bucket) list"
  commit_times :: "datetime list"

record period_stats = snapshot +
  total_additions :: int
  total_deletions :: int

subsection \<open>Double-precision arithmetic\<close>

text \<open>
  A double is a significand and a binary exponent; it denotes \<open>mantissa * 2 ^ exponent\<close>.
  The exponent range is not bounded here (no overflow, no underflow): the operations are
  those of IEEE 754 binary64 whenever the result lies between \<open>2 ^ - 1022\<close> and
  \<open>2 ^ 1024\<close> in magnitude.
\<close>

record double =
  mantissa :: int
  exponent :: int

definition float_value :: "double \<Rightarrow> real" where
  "float_value x = real_of_int (mantissa x) * 2 powi exponent x"

text \<open>The integer nearest to \<open>p / q\<close> for \<open>q > 0\<close>, a tie going to the even one.\<close>

definition round_half_even :: "int \<Rightarrow> int \<Rightarrow> int" where
  "round_half_even p q =
     (let f = p div q; r = p mod q
      in if 2 * r < q then f else if q < 2 * r then f + 1 else if even f then f else f + 1)"

text \<open>Numerator and denominator of \<open>(a / d) / 2 ^ t\<close>.\<close>

definition scale :: "int \<Rightarrow> int \<Rightarrow> int \<Rightarrow> int \<times> int" where
  "scale a d t = (if 0 \<le> t then (a, d * 2 ^ nat t) else (a * 2 ^ nat (- t), d))"

text \<open>
  The double nearest to \<open>(n / d) * 2 ^ t\<close>, for \<open>d > 0\<close>: \<open>e\<close> is the binary exponent of
  \<open>|n| / d\<close> (one of two candidates given by the bit lengths), and the significand is
  \<open>|n| / d\<close> scaled to 53 bits and rounded.
\<close>

definition round_double :: "int \<Rightarrow> int \<Rightarrow> int \<Rightarrow> double" where
  "round_double n d t =
     (if n = 0 then \<lparr>mantissa = 0, exponent = 0\<rparr>
      else
        let a = \<bar>n\<bar>;
            k = bitlen a - bitlen d;
            e = (case scale a d k of (p, q) \<Rightarrow> if q \<le> p then k else k - 1);
            m = (case scale a d (e - 52) of (p, q) \<Rightarrow> round_half_even p q)
        in \<lparr>mantissa = sgn n * m, exponent = e - 52 + t\<rparr>)"

text \<open>
  \<^verbatim>\<open>n / d\<close> on two integers with \<open>d > 0\<close> (the correctly rounded quotient), and
  \<^verbatim>\<open>x * c\<close> for a float and an integer that converts to a float exactly.
\<close>

definition truediv :: "int \<Rightarrow> int \<Rightarrow> double" where
  "truediv n d = round_double n d 0"

definition float_mul_int :: "double \<Rightarrow> int \<Rightarrow> double" where
  "float_mul_int x c = round_double (mantissa x * c) 1 (exponent x)"

subsection \<open>\<^verbatim>\<open>analyze_productivity\<close>\<close>

record report =
  total_change_percentage :: pyfloat
  additions_change_percentage :: pyfloat
  deletions_change_percentage :: pyfloat
  daily_average_changes :: real
  daily_average_change_percentage :: pyfloat
  weekend_activity :: int
  weekday_activity :: int
  weekend_percentage :: real
  average_commit_interval_minutes :: real
  commits_per_day :: real
  most_active_repositories :: "(string \<times> int) list"

text \<open>Lines 169 to 176: the loop over \<^verbatim>\<open>current_stats['daily_stats'].items()\<close>.\<close>

fun weekend_loop :: "(string \<times> bucket) list \<Rightarrow> int \<Rightarrow> int \<Rightarrow> error + (int \<times> int)" where
  "weekend_loop [] weekend_changes weekday_changes = Inr (weekend_changes, weekday_changes)"
| "weekend_loop ((day, stats) # rest) weekend_changes weekday_changes =
     (case strptime_ymd day of
        None \<Rightarrow> Inl ValueError
      | Some date \<Rightarrow>
          if weekday date \<ge> 5
          then weekend_loop rest (weekend_changes + (additions stats + deletions stats)) weekday_changes
          else weekend_loop rest weekend_changes (weekday_changes + (additions stats + deletions stats)))"

text \<open>\<^verbatim>\<open>statistics.mean\<close>: StatisticsError on no data.\<close>

definition mean :: "real list \<Rightarrow> error + real" where
  "mean xs = (if xs = [] then Inl StatisticsError else Inr (sum_list xs / real (length xs)))"

text \<open>Lines 179 to 187: average interval in seconds and commits per day.\<close>

definition commit_frequency :: "datetime list \<Rightarrow> (string \<times> bucket) list \<Rightarrow> error + (real \<times> real)" where
  "commit_frequency stamps daily =
     (if length stamps > 1
      then
        (let commit_intervals =
               map (\<lambda>i. total_seconds (stamps ! i) (stamps ! (i - 1))) [1..<length stamps]
         in case mean commit_intervals of
              Inl e \<Rightarrow> Inl e
            | Inr avg_commit_interval \<Rightarrow>
                if length daily = 0 then Inl ZeroDivisionError
                else Inr (avg_commit_interval, real (length stamps) / real (length daily)))
      else Inr (0, 0))"

text \<open>
  Lines 190 to 192: \<^verbatim>\<open>list.sort(key=lambda x: x[1], reverse=True)\<close> is a stable sort into
  descending key order; on integer keys that is the stable ascending sort by the negated key.
\<close>

definition repo_activity_of :: "(string \<times> bucket) list \<Rightarrow> (string \<times> int) list" where
  "repo_activity_of repos = map (\<lambda>(repo, stats). (repo, additions stats + deletions stats)) repos"

definition sort_reverse :: "(string \<times> int) list \<Rightarrow> (string \<times> int) list" where
  "sort_reverse xs = sort_key (\<lambda>x. - snd x) xs"

definition analyze_productivity :: "period_stats \<Rightarrow> period_stats \<Rightarrow> error + report" where
  "analyze_productivity current_stats previous_stats =
     (let current_total = total_additions current_stats + total_deletions current_stats;
          previous_total = total_additions previous_stats + total_deletions previous_stats;
          total_change_pct =
            (if previous_total > 0
             then Finite (real_of_int (current_total - previous_total) / real_of_int previous_total * 100)
             else PInf);
          additions_change_pct =
            (if total_additions previous_stats > 0
             then Finite (real_of_int (total_additions current_stats - total_additions previous_stats)
                            / real_of_int (total_additions previous_stats) * 100)
             else PInf);
          deletions_change_pct =
            (if total_deletions previous_stats > 0
             then Finite (real_of_int (total_deletions current_stats - total_deletions previous_stats)
                            / real_of_int (total_deletions previous_stats) * 100)
             else PInf);
          current_daily_avg =
            (if daily_stats current_stats \<noteq> []
             then real_of_int current_total / real (length (daily_stats current_stats)) else 0);
          previous_daily_avg =
            (if daily_stats previous_stats \<noteq> []
             then real_of_int previous_total / real (length (daily_stats previous_stats)) else 0)
      in case weekend_loop (daily_stats current_stats) 0 0 of
           Inl e \<Rightarrow> Inl e
         | Inr (weekend_changes, weekday_changes) \<Rightarrow>
             (case commit_frequency (commit_times current_stats) (daily_stats current_stats) of
                Inl e \<Rightarrow> Inl e
              | Inr (avg_commit_interval, commits_per_day') \<Rightarrow>
                  Inr \<lparr>total_change_percentage = total_change_pct,
                       additions_change_percentage = additions_change_pct,
                       deletions_change_percentage = deletions_change_pct,
                       daily_average_changes = current_daily_avg,
                       daily_average_change_percentage =
                         (if previous_daily_avg > 0
                          then Finite ((current_daily_avg - previous_daily_avg) / previous_daily_avg * 100)
                          else PInf),
                       weekend_activity = weekend_changes,
                       weekday_activity = weekday_changes,
                       weekend_percentage =
                         (if weekend_changes + weekday_changes > 0
                          then float_value
                                 (float_mul_int
                                    (truediv weekend_changes (weekend_changes + weekday_changes))
                                    100)
                          else 0),
                       average_commit_interval_minutes = avg_commit_interval / 60,
                       commits_per_day = commits_per_day',
                       most_active_repositories =
                         take 5 (sort_reverse (repo_activity_of (repo_stats current_stats)))\<rparr>))"

subsection \<open>The hosting API as seen by the program\<close>

text \<open>
  A listed commit carries the three strings the program reads: \<^verbatim>\<open>commit['sha']\<close>,
  \<^verbatim>\<open>commit['url']\<close> and \<^verbatim>\<open>commit['commit']['author']['date']\<close>.
\<close>

record commit =
  sha :: string
  url :: string
  author_date :: string

text \<open>
  The three GET requests of the source, with the parameters that vary (\<^verbatim>\<open>per_page\<close> is
  always 100, the headers are fixed): the repository list of an organisation by page; the
  commit list of a repository by author, \<^verbatim>\<open>since\<close>, \<^verbatim>\<open>until\<close> and page (the two instants
  are sent as \<^verbatim>\<open>isoformat()\<close> strings, kept as datetimes here); the detail of one commit.
\<close>

datatype request =
    GetOrgRepos string nat
  | GetCommits string string string datetime datetime nat
  | GetCommit string string string

text \<open>
  A response is its status code and its decoded body. The body has the shape of the
  endpoint asked: each call site reads the field of its own endpoint (the repository names,
  the commits, or \<^verbatim>\<open>stats['stats']['additions']\<close> and \<^verbatim>\<open>['deletions']\<close>).
\<close>

record response =
  status_code :: int
  repos_json :: "string list"
  commits_json :: "commit list"
  stats_json :: "int \<times> int"

text \<open>
  The world outside: \<open>server w n r\<close> is the response to request \<open>r\<close> when \<open>n\<close> requests
  were made before it, and \<open>log w\<close> lists the requests made so far, oldest first.
\<close>

record world =
  server :: "nat \<Rightarrow> request \<Rightarrow> response"
  log :: "request list"

definition requests_get :: "request \<Rightarrow> world \<Rightarrow> response \<times> world" where
  "requests_get r w = (server w (length (log w)) r, w\<lparr>log := log w @ [r]\<rparr>)"

subsection \<open>\<^verbatim>\<open>get_org_repos\<close>\<close>

text \<open>Lines 32 to 49: the loop \<^verbatim>\<open>while True\<close> over the pages, from the state (page, repos).\<close>

partial_function (option) org_repos_loop ::
  "string \<Rightarrow> nat \<Rightarrow> string list \<Rightarrow> world \<Rightarrow> ((error + string list) \<times> world) option" where
  "org_repos_loop org page repos w =
     (let (response, w1) = requests_get (GetOrgRepos org page) w in
      if status_code response \<noteq> 200 then Some (Inl Exception, w1)
      else if repos_json response = [] then Some (Inr repos, w1)
      else org_repos_loop org (page + 1) (repos @ repos_json response) w1)"

declare org_repos_loop.simps [code]

definition get_org_repos :: "string \<Rightarrow> world \<Rightarrow> ((error + string list) \<times> world) option" where
  "get_org_repos org w = org_repos_loop org 1 [] w"

subsection \<open>\<^verbatim>\<open>get_user_commits\<close>\<close>

text \<open>
  Lines 62 to 87: the pages of one repository. A status other than 200 and an empty page
  both leave the loop; nothing is removed from a page before it is appended.
\<close>

partial_function (option) commits_loop ::
  "string \<Rightarrow> string \<Rightarrow> string \<Rightarrow> datetime \<Rightarrow> datetime \<Rightarrow> nat \<Rightarrow> commit list \<Rightarrow> world
    \<Rightarrow> (commit list \<times> world) option" where
  "commits_loop org repo username start_date end_date page all_commits w =
     (let (response, w1) = requests_get (GetCommits org repo username start_date end_date page) w in
      if status_code response \<noteq> 200 then Some (all_commits, w1)
      else if commits_json response = [] then Some (all_commits, w1)
      else commits_loop org repo username start_date end_date (page + 1)
             (all_commits @ commits_json response) w1)"

declare commits_loop.simps [code]

text \<open>Line 60: \<^verbatim>\<open>for repo in repos\<close>.\<close>

fun repos_loop ::
  "string \<Rightarrow> string \<Rightarrow> datetime \<Rightarrow> datetime \<Rightarrow> string list \<Rightarrow> commit list \<Rightarrow> world
    \<Rightarrow> (commit list \<times> world) option" where
  "repos_loop org username start_date end_date [] all_commits w = Some (all_commits, w)"
| "repos_loop org username start_date end_date (repo # repos) all_commits w =
     (case commits_loop org repo username start_date end_date 1 all_commits w of
        None \<Rightarrow> None
      | Some (all_commits1, w1) \<Rightarrow> repos_loop org username start_date end_date repos all_commits1 w1)"

definition get_user_commits ::
  "string \<Rightarrow> string \<Rightarrow> datetime \<Rightarrow> datetime \<Rightarrow> world \<Rightarrow> ((error + commit list) \<times> world) option" where
  "get_user_commits org username start_date end_date w =
     (case get_org_repos org w of
        None \<Rightarrow> None
      | Some (Inl e, w1) \<Rightarrow> Some (Inl e, w1)
      | Some (Inr repos, w1) \<Rightarrow>
          (case repos_loop org username start_date end_date repos [] w1 of
             None \<Rightarrow> None
           | Some (all_commits, w2) \<Rightarrow> Some (Inr all_commits, w2)))"

subsection \<open>\<^verbatim>\<open>get_commit_stats\<close>\<close>

text \<open>\<^verbatim>\<open>str.split(sep)\<close> for a separator that is not empty.\<close>

fun split :: "string \<Rightarrow> string \<Rightarrow> string list" where
  "split sep [] = [[]]"
| "split sep (c # cs) =
     (if sep \<noteq> [] \<and> take (length sep) (c # cs) = sep
      then [] # split sep (drop (length sep) (c # cs))
      else (case split sep cs of [] \<Rightarrow> [[c]] | p # ps \<Rightarrow> (c # p) # ps))"

text \<open>
  Line 114: \<^verbatim>\<open>commit_url.split('/repos/')[1].split('/commits/')[0].split('/')[-1]\<close>; the
  index 1 raises IndexError when the URL has no \<^verbatim>\<open>/repos/\<close>.
\<close>

definition repo_name_of :: "string \<Rightarrow> error + string" where
  "repo_name_of commit_url =
     (case split ''/repos/'' commit_url of
        _ # p1 # _ \<Rightarrow>
          (case split ''/commits/'' p1 of
             q0 # _ \<Rightarrow> (case split ''/'' q0 of [] \<Rightarrow> Inl IndexError | rs \<Rightarrow> Inr (last rs))
           | [] \<Rightarrow> Inl IndexError)
      | _ \<Rightarrow> Inl IndexError)"

text \<open>
  The update of a \<^verbatim>\<open>defaultdict\<close> bucket (lines 133 to 135 and 139 to 141): a key not yet
  present is inserted last with the zero bucket, then the three counters are increased.
\<close>

fun bucket_add :: "string \<Rightarrow> int \<Rightarrow> int \<Rightarrow> (string \<times> bucket) list \<Rightarrow> (string \<times> bucket) list" where
  "bucket_add k a d [] = [(k, \<lparr>additions = 0 + a, deletions = 0 + d, commits = 0 + 1\<rparr>)]"
| "bucket_add k a d ((k', b) # rest) =
     (if k' = k
      then (k', \<lparr>additions = additions b + a, deletions = deletions b + d, commits = commits b + 1\<rparr>) # rest
      else (k', b) # bucket_add k a d rest)"

text \<open>
  Lines 111 to 145: the loop over the collected commits. Its state is the five locals
  \<^verbatim>\<open>total_additions\<close>, \<^verbatim>\<open>total_deletions\<close>, \<^verbatim>\<open>repo_stats\<close>, \<^verbatim>\<open>daily_stats\<close>, \<^verbatim>\<open>commit_times\<close>.
  The timestamp is appended (line 116) before the detail request is made (line 120).
\<close>

fun stats_loop :: "string \<Rightarrow> commit list \<Rightarrow> period_stats \<Rightarrow> world \<Rightarrow> (error + period_stats) \<times> world" where
  "stats_loop org [] st w = (Inr st, w)"
| "stats_loop org (c # cs) st w =
     (case repo_name_of (url c) of
        Inl e \<Rightarrow> (Inl e, w)
      | Inr repo_name \<Rightarrow>
          (case strptime_iso (author_date c) of
             None \<Rightarrow> (Inl ValueError, w)
           | Some commit_date \<Rightarrow>
               let st1 = st\<lparr>commit_times := commit_times st @ [commit_date]\<rparr>;
                   (response, w1) = requests_get (GetCommit org repo_name (sha c)) w
               in if status_code response = 200
                  then
                    let a = fst (stats_json response);
                        d = snd (stats_json response);
                        day_key = strftime_ymd commit_date
                    in stats_loop org cs
                         (st1\<lparr>total_additions := total_additions st1 + a,
                              total_deletions := total_deletions st1 + d,
                              repo_stats := bucket_add repo_name a d (repo_stats st1),
                              daily_stats := bucket_add day_key a d (daily_stats st1)\<rparr>) w1
                  else stats_loop org cs st1 w1))"

definition initial_stats :: period_stats where
  "initial_stats =
     \<lparr>repo_stats = [], daily_stats = [], commit_times = [], total_additions = 0, total_deletions = 0\<rparr>"

text \<open>Lines 104 to 152: the aggregation of a list of collected commits.\<close>

definition aggregate :: "string \<Rightarrow> commit list \<Rightarrow> world \<Rightarrow> (error + int \<times> int \<times> snapshot) \<times> world" where
  "aggregate org all_commits w =
     (case stats_loop org all_commits initial_stats w of
        (Inl e, w1) \<Rightarrow> (Inl e, w1)
      | (Inr st, w1) \<Rightarrow>
          (Inr (total_additions st, total_deletions st,
                \<lparr>repo_stats = repo_stats st, daily_stats = daily_stats st,
                 commit_times = commit_times st\<rparr>), w1))"

definition get_commit_stats ::
  "string \<Rightarrow> string \<Rightarrow> int \<Rightarrow> int \<Rightarrow> world \<Rightarrow> ((error + int \<times> int \<times> snapshot) \<times> world) option" where
  "get_commit_stats org username y m w =
     (case datetime_new y m 1 0 0 0 of
        None \<Rightarrow> Some (Inl ValueError, w)
      | Some start_date \<Rightarrow>
          (case (if m = 12 then datetime_new (y + 1) 1 1 0 0 0 else datetime_new y (m + 1) 1 0 0 0) of
             None \<Rightarrow> Some (Inl ValueError, w)
           | Some end_date \<Rightarrow>
               (case get_user_commits org username start_date end_date w of
                  None \<Rightarrow> None
                | Some (Inl e, w1) \<Rightarrow> Some (Inl e, w1)
                | Some (Inr all_commits, w1) \<Rightarrow> Some (aggregate org all_commits w1))))"

text \<open>
  Line 237 of \<^verbatim>\<open>main\<close>: the dict given to \<^verbatim>\<open>analyze_productivity\<close> is the snapshot with
  the two totals added.
\<close>

definition with_totals :: "int \<times> int \<times> snapshot \<Rightarrow> period_stats" where
  "with_totals res =
     (case res of (a, d, s) \<Rightarrow>
        \<lparr>repo_stats = repo_stats s, daily_stats = daily_stats s, commit_times = commit_times s,
         total_additions = a, total_deletions = d\<rparr>)"

section \<open>Notions of the specification\<close>

subsection \<open>Percentages and daily averages\<close>

definition total_changes :: "period_stats \<Rightarrow> int" where
  "total_changes p = total_additions p + total_deletions p"

text \<open>
  The daily average of a period: total changes over the number of day buckets, and 0
  when there is no day bucket.
\<close>

definition daily_average :: "period_stats \<Rightarrow> real" where
  "daily_average p =
     (if daily_stats p \<noteq> [] then real_of_int (total_changes p) / real (length (daily_stats p))
      else 0)"

text \<open>
  \<^verbatim>\<open>part / whole * 100\<close> as Python evaluates it on two integers with \<open>whole > 0\<close>: the
  quotient is rounded to a double, and so is its product with 100.
\<close>

definition percentage_of :: "int \<Rightarrow> int \<Rightarrow> real" where
  "percentage_of part whole = float_value (float_mul_int (truediv part whole) 100)"

subsection \<open>Weekend and weekday keys\<close>

text \<open>A day key is a weekend day when it parses to a Saturday (5) or a Sunday (6).\<close>

definition is_weekend_key :: "string \<times> bucket \<Rightarrow> bool" where
  "is_weekend_key kb =
     (case strptime_ymd (fst kb) of None \<Rightarrow> False | Some t \<Rightarrow> weekday t \<in> {5, 6})"

definition is_weekday_key :: "string \<times> bucket \<Rightarrow> bool" where
  "is_weekday_key kb =
     (case strptime_ymd (fst kb) of None \<Rightarrow> False | Some t \<Rightarrow> weekday t \<in> {0, 1, 2, 3, 4})"

definition changes_of :: "string \<times> bucket \<Rightarrow> int" where
  "changes_of kb = additions (snd kb) + deletions (snd kb)"

subsection \<open>Detail lookups and bucket sums\<close>

text \<open>
  The detail lookups of a run of the aggregation loop: each commit with the response that
  its detail request received, in processing order.
\<close>

fun lookups :: "string \<Rightarrow> commit list \<Rightarrow> world \<Rightarrow> (commit \<times> response) list" where
  "lookups org [] w = []"
| "lookups org (c # cs) w =
     (case repo_name_of (url c) of
        Inl e \<Rightarrow> []
      | Inr repo_name \<Rightarrow>
          (case strptime_iso (author_date c) of
             None \<Rightarrow> []
           | Some commit_date \<Rightarrow>
               let (response, w1) = requests_get (GetCommit org repo_name (sha c)) w
               in (c, response) # lookups org cs w1))"

text \<open>The successfully detailed commits: those whose lookup had status 200.\<close>

definition detailed :: "string \<Rightarrow> commit list \<Rightarrow> world \<Rightarrow> (commit \<times> response) list" where
  "detailed org cs w = filter (\<lambda>(c, response). status_code response = 200) (lookups org cs w)"

definition sum_additions :: "(commit \<times> response) list \<Rightarrow> int" where
  "sum_additions ds = sum_list (map (\<lambda>(c, response). fst (stats_json response)) ds)"

definition sum_deletions :: "(commit \<times> response) list \<Rightarrow> int" where
  "sum_deletions ds = sum_list (map (\<lambda>(c, response). snd (stats_json response)) ds)"

definition bucket_sum :: "(bucket \<Rightarrow> int) \<Rightarrow> (string \<times> bucket) list \<Rightarrow> int" where
  "bucket_sum field buckets = sum_list (map (\<lambda>(k, b). field b) buckets)"

text \<open>
  What a list of detailed commits contributes to the totals and to the two bucket maps,
  from given starting values.
\<close>

fun tally ::
  "(commit \<times> response) list \<Rightarrow> int \<times> int \<times> (string \<times> bucket) list \<times> (string \<times> bucket) list
    \<Rightarrow> int \<times> int \<times> (string \<times> bucket) list \<times> (string \<times> bucket) list" where
  "tally [] acc = acc"
| "tally ((c, response) # ds) (ta, td, repos, days) =
     (case (repo_name_of (url c), strptime_iso (author_date c)) of
        (Inr repo_name, Some commit_date) \<Rightarrow>
          tally ds
            (ta + fst (stats_json response), td + snd (stats_json response),
             bucket_add repo_name (fst (stats_json response)) (snd (stats_json response)) repos,
             bucket_add (strftime_ymd commit_date) (fst (stats_json response))
               (snd (stats_json response)) days)
      | _ \<Rightarrow> tally ds (ta, td, repos, days))"

subsection \<open>What the commit-list endpoint served\<close>

text \<open>
  The commits in the successful commit-list responses to a sequence of requests, the first
  of which is request number \<open>n\<close>; and those served between two states of the world.
\<close>

fun served_list :: "(nat \<Rightarrow> request \<Rightarrow> response) \<Rightarrow> nat \<Rightarrow> request list \<Rightarrow> commit list" where
  "served_list srv n [] = []"
| "served_list srv n (r # rs) =
     (case r of
        GetCommits org repo username since until page \<Rightarrow>
          (if status_code (srv n r) = 200 then commits_json (srv n r) else [])
      | _ \<Rightarrow> [])
     @ served_list srv (Suc n) rs"

definition served :: "world \<Rightarrow> world \<Rightarrow> commit list" where
  "served w w' = served_list (server w) (length (log w)) (drop (length (log w)) (log w'))"

definition is_repos_request :: "request \<Rightarrow> bool" where
  "is_repos_request r = (case r of GetOrgRepos org page \<Rightarrow> True | _ \<Rightarrow> False)"

definition is_commits_request :: "string \<Rightarrow> string \<Rightarrow> datetime \<Rightarrow> datetime \<Rightarrow> request \<Rightarrow> bool" where
  "is_commits_request org username since until r =
     (case r of
        GetCommits org' repo username' since' until' page \<Rightarrow>
          org' = org \<and> username' = username \<and> since' = since \<and> until' = until
      | _ \<Rightarrow> False)"

subsection \<open>The pagination contract\<close>

text \<open>
  The requests for \<open>n\<close> consecutive pages, from page \<open>first\<close> on, of the repository list of
  an organisation, and of the commit list of one repository.
\<close>

definition repo_requests :: "string \<Rightarrow> nat \<Rightarrow> nat \<Rightarrow> request list" where
  "repo_requests org first n = map (GetOrgRepos org) [first..<first + n]"

definition commit_requests ::
  "string \<Rightarrow> string \<Rightarrow> datetime \<Rightarrow> datetime \<Rightarrow> string \<Rightarrow> nat \<Rightarrow> nat \<Rightarrow> request list" where
  "commit_requests org username since until repo first n =
     map (GetCommits org repo username since until) [first..<first + n]"

text \<open>
  A successful enumeration, whose first request is request number \<open>n\<close>: every page but
  the last is answered with status 200 and some names, the last with status 200 and none.
\<close>

fun repo_pages_ok :: "(nat \<Rightarrow> request \<Rightarrow> response) \<Rightarrow> nat \<Rightarrow> request list \<Rightarrow> bool" where
  "repo_pages_ok srv n [] = False"
| "repo_pages_ok srv n [r] = (status_code (srv n r) = 200 \<and> repos_json (srv n r) = [])"
| "repo_pages_ok srv n (r # r' # rs) =
     (status_code (srv n r) = 200 \<and> repos_json (srv n r) \<noteq> []
      \<and> repo_pages_ok srv (Suc n) (r' # rs))"

text \<open>The repository names served by an enumeration, in page order.\<close>

fun listed_list :: "(nat \<Rightarrow> request \<Rightarrow> response) \<Rightarrow> nat \<Rightarrow> request list \<Rightarrow> string list" where
  "listed_list srv n [] = []"
| "listed_list srv n (r # rs) = repos_json (srv n r) @ listed_list srv (Suc n) rs"

text \<open>
  A commit page asks for a next page when it has status 200 and some commits. The pages of
  one repository: every page but the last asks for a next page, the last does not.
\<close>

definition has_more :: "response \<Rightarrow> bool" where
  "has_more response = (status_code response = 200 \<and> commits_json response \<noteq> [])"

fun commit_pages_ok :: "(nat \<Rightarrow> request \<Rightarrow> response) \<Rightarrow> nat \<Rightarrow> request list \<Rightarrow> bool" where
  "commit_pages_ok srv n [] = False"
| "commit_pages_ok srv n [r] = (has_more (srv n r) = False)"
| "commit_pages_ok srv n (r # r' # rs) =
     (has_more (srv n r) \<and> commit_pages_ok srv (Suc n) (r' # rs))"

text \<open>
  The scan of the repositories, given with the number of pages requested for each: the
  pages of the first repository start at request number \<open>n\<close>, those of the next one
  follow.
\<close>

fun collection_ok ::
  "(nat \<Rightarrow> request \<Rightarrow> response) \<Rightarrow> nat \<Rightarrow> string \<Rightarrow> string \<Rightarrow> datetime \<Rightarrow> datetime
    \<Rightarrow> (string \<times> nat) list \<Rightarrow> bool" where
  "collection_ok srv n org username since until [] = True"
| "collection_ok srv n org username since until ((repo, p) # rest) =
     (commit_pages_ok srv n (commit_requests org username since until repo 1 p)
      \<and> collection_ok srv (n + p) org username since until rest)"

text \<open>All the commit-list requests of such a scan, repository by repository.\<close>

definition collection_requests ::
  "string \<Rightarrow> string \<Rightarrow> datetime \<Rightarrow> datetime \<Rightarrow> (string \<times> nat) list \<Rightarrow> request list" where
  "collection_requests org username since until scan =
     concat (map (\<lambda>(repo, p). commit_requests org username since until repo 1 p) scan)"

text \<open>The (year, month) pairs for which both \<^verbatim>\<open>datetime\<close> constructions of lines 96 to 100 succeed.\<close>

definition valid_month :: "int \<Rightarrow> int \<Rightarrow> bool" where
  "valid_month y m = (1 \<le> y \<and> y \<le> 9999 \<and> 1 \<le> m \<and> m \<le> 12 \<and> \<not> (y = 9999 \<and> m = 12))"

section \<open>Example data\<close>

definition stamp :: "int \<Rightarrow> int \<Rightarrow> int \<Rightarrow> int \<Rightarrow> int \<Rightarrow> int \<Rightarrow> datetime" where
  "stamp y m d hh mm ss =
     \<lparr>dt_year = y, dt_month = m, dt_day = d, dt_hour = hh, dt_minute = mm, dt_second = ss\<rparr>"

definition bkt :: "int \<Rightarrow> int \<Rightarrow> int \<Rightarrow> bucket" where
  "bkt a d n = \<lparr>additions = a, deletions = d, commits = n\<rparr>"

definition ok :: response where
  "ok = \<lparr>status_code = 200, repos_json = [], commits_json = [], stats_json = (0, 0)\<rparr>"

definition not_found :: response where
  "not_found = \<lparr>status_code = 404, repos_json = [], commits_json = [], stats_json = (0, 0)\<rparr>"

definition commit_of :: "string \<Rightarrow> string \<Rightarrow> string \<Rightarrow> commit" where
  "commit_of s repo date =
     \<lparr>sha = s, url = ''https://api.github.com/repos/acme/'' @ repo @ ''/commits/'' @ s,
      author_date = date\<rparr>"

text \<open>
  The organisation \<open>acme\<close> has the repositories \<open>A\<close> and \<open>B\<close>; \<open>A\<close> has three commits of
  the author, made on Saturday 2 March 2024 at 10:00:00, 10:01:00 and 10:03:00, with
  (+10/-2), (+5/-5) and (+1/-0); \<open>B\<close> has none.
\<close>

definition scenario_commits :: "commit list" where
  "scenario_commits =
     [commit_of ''a1'' ''A'' ''2024-03-02T10:00:00Z'',
      commit_of ''a2'' ''A'' ''2024-03-02T10:01:00Z'',
      commit_of ''a3'' ''A'' ''2024-03-02T10:03:00Z'']"

definition listing :: "request \<Rightarrow> response" where
  "listing r =
     (case r of
        GetOrgRepos org page \<Rightarrow> if page = 1 then ok\<lparr>repos_json := [''A'', ''B'']\<rparr> else ok
      | GetCommits org repo username since until page \<Rightarrow>
          if repo = ''A'' \<and> page = 1 then ok\<lparr>commits_json := scenario_commits\<rparr> else ok
      | GetCommit org repo s \<Rightarrow> not_found)"

definition scenario_world :: world where
  "scenario_world =
     \<lparr>server = (\<lambda>n r.
        case r of
          GetCommit org repo s \<Rightarrow>
            if s = ''a1'' then ok\<lparr>stats_json := (10, 2)\<rparr>
            else if s = ''a2'' then ok\<lparr>stats_json := (5, 5)\<rparr>
            else ok\<lparr>stats_json := (1, 0)\<rparr>
        | _ \<Rightarrow> listing r),
      log = []\<rparr>"

text \<open>The same organisation when the detail of the second commit cannot be fetched.\<close>

definition partial_world :: world where
  "partial_world =
     \<lparr>server = (\<lambda>n r.
        case r of
          GetCommit org repo s \<Rightarrow>
            if s = ''a1'' then ok\<lparr>stats_json := (10, 2)\<rparr>
            else if s = ''a2'' then not_found
            else ok\<lparr>stats_json := (1, 0)\<rparr>
        | _ \<Rightarrow> listing r),
      log = []\<rparr>"

text \<open>The same organisation when no commit detail can be fetched.\<close>

definition failing_world :: world where
  "failing_world = \<lparr>server = (\<lambda>n r. listing r), log = []\<rparr>"

text \<open>
  An upstream whose \<^verbatim>\<open>until\<close> is inclusive: repository \<open>A\<close> has one commit, authored at
  2024-03-01T00:00:00Z, served for every range with \<open>since \<le> t \<le> until\<close>.
\<close>

definition boundary_commit :: commit where
  "boundary_commit = commit_of ''b1'' ''A'' ''2024-03-01T00:00:00Z''"

definition inclusive_world :: world where
  "inclusive_world =
     \<lparr>server = (\<lambda>n r.
        case r of
          GetOrgRepos org page \<Rightarrow> if page = 1 then ok\<lparr>repos_json := [''A'']\<rparr> else ok
        | GetCommits org repo username since until page \<Rightarrow>
            if page = 1 \<and> seconds_of since \<le> seconds_of (stamp 2024 3 1 0 0 0)
                 \<and> seconds_of (stamp 2024 3 1 0 0 0) \<le> seconds_of until
            then ok\<lparr>commits_json := [boundary_commit]\<rparr> else ok
        | GetCommit org repo s \<Rightarrow> ok),
      log = []\<rparr>"

text \<open>Snapshots for the analysis: a month with a Saturday and a Monday, and an empty month.\<close>

definition march :: period_stats where
  "march =
     \<lparr>repo_stats = [(''A'', bkt 16 7 3), (''B'', bkt 30 0 1), (''C'', bkt 20 3 2),
                    (''D'', bkt 1 0 1), (''E'', bkt 25 5 4), (''F'', bkt 0 1 1)],
      daily_stats = [(''2024-03-02'', bkt 30 10 5), (''2024-03-04'', bkt 62 6 7)],
      commit_times = [stamp 2024 3 2 10 0 0, stamp 2024 3 2 10 1 0, stamp 2024 3 2 10 3 0],
      total_additions = 92, total_deletions = 16\<rparr>"

definition february :: period_stats where
  "february =
     \<lparr>repo_stats = [(''A'', bkt 40 14 6)],
      daily_stats = [(''2024-02-05'', bkt 40 14 6)],
      commit_times = [stamp 2024 2 5 9 0 0],
      total_additions = 40, total_deletions = 14\<rparr>"

definition empty_month :: period_stats where
  "empty_month =
     \<lparr>repo_stats = [], daily_stats = [], commit_times = [],
      total_additions = 0, total_deletions = 0\<rparr>"

text \<open>
  A month with one change on Saturday 2 March 2024 and two changes on Monday 4 March.
\<close>

definition thirds :: period_stats where
  "thirds =
     \<lparr>repo_stats = [(''A'', bkt 2 1 2)],
      daily_stats = [(''2024-03-02'', bkt 1 0 1), (''2024-03-04'', bkt 1 1 1)],
      commit_times = [stamp 2024 3 2 10 0 0, stamp 2024 3 4 9 0 0],
      total_additions = 2, total_deletions = 1\<rparr>"

text \<open>What the aggregation returns for the three commits when no detail can be fetched.\<close>

definition failed_snapshot :: snapshot where
  "failed_snapshot =
     \<lparr>repo_stats = [], daily_stats = [],
      commit_times = [stamp 2024 3 2 10 0 0, stamp 2024 3 2 10 1 0, stamp 2024 3 2 10 3 0]\<rparr>"

text \<open>What the aggregation returns for the three commits when every detail is fetched.\<close>

definition scenario_snapshot :: snapshot where
  "scenario_snapshot =
     \<lparr>repo_stats = [(''A'', bkt 16 7 3)], daily_stats = [(''2024-03-02'', bkt 16 7 3)],
      commit_times = [stamp 2024 3 2 10 0 0, stamp 2024 3 2 10 1 0, stamp 2024 3 2 10 3 0]\<rparr>"

text \<open>What the aggregation returns when only the detail of the second commit fails.\<close>

definition partial_snapshot :: snapshot where
  "partial_snapshot =
     \<lparr>repo_stats = [(''A'', bkt 11 2 2)], daily_stats = [(''2024-03-02'', bkt 11 2 2)],
      commit_times = [stamp 2024 3 2 10 0 0, stamp 2024 3 2 10 1 0, stamp 2024 3 2 10 3 0]\<rparr>"

section \<open>Evaluation rules\<close>

lemmas date_defs = strptime_ymd_def parse_d_def is_digit_def digit_val_def datetime_new_def
  days_in_month_def is_leap_def weekday_def toordinal_def days_before_year_def
  days_before_month_def

lemmas clock_defs = total_seconds_def seconds_of_def

lemmas analysis_defs = analyze_productivity_def commit_frequency_def mean_def sort_reverse_def
  repo_activity_of_def Let_def

lemmas month_defs = march_def february_def empty_month_def stamp_def bkt_def

section \<open>The analysis\<close>

lemma analyze_fields:
  assumes "analyze_productivity cur prev = Inr r"
  shows "total_change_percentage r =
           (if 0 < total_changes prev
            then Finite (real_of_int (total_changes cur - total_changes prev)
                           / real_of_int (total_changes prev) * 100)
            else PInf)"
    and "additions_change_percentage r =
           (if 0 < total_additions prev
            then Finite (real_of_int (total_additions cur - total_additions prev)
                           / real_of_int (total_additions prev) * 100)
            else PInf)"
    and "deletions_change_percentage r =
           (if 0 < total_deletions prev
            then Finite (real_of_int (total_deletions cur - total_deletions prev)
                           / real_of_int (total_deletions prev) * 100)
            else PInf)"
    and "daily_average_change_percentage r =
           (if 0 < daily_average prev
            then Finite ((daily_average cur - daily_average prev) / daily_average prev * 100)
            else PInf)"
    and "daily_average_changes r = daily_average cur"
    and "most_active_repositories r = take 5 (sort_reverse (repo_activity_of (repo_stats cur)))"
  using assms
  by (auto simp: analyze_productivity_def Let_def total_changes_def daily_average_def
           split: sum.splits prod.splits)

lemma analyze_weekend:
  assumes "analyze_productivity cur prev = Inr r"
  shows "weekend_loop (daily_stats cur) 0 0 = Inr (weekend_activity r, weekday_activity r)"
    and "weekend_percentage r =
           (if weekend_activity r + weekday_activity r > 0
            then percentage_of (weekend_activity r) (weekend_activity r + weekday_activity r)
            else 0)"
  using assms
  by (auto simp: analyze_productivity_def percentage_of_def Let_def split: sum.splits prod.splits)

lemma analyze_frequency:
  assumes "analyze_productivity cur prev = Inr r"
  shows "commit_frequency (commit_times cur) (daily_stats cur)
           = Inr (average_commit_interval_minutes r * 60, commits_per_day r)"
  using assms
  by (auto simp: analyze_productivity_def Let_def split: sum.splits prod.splits)

lemma analyze_returns:
  assumes "weekend_loop (daily_stats cur) 0 0 = Inr wk"
      and "commit_frequency (commit_times cur) (daily_stats cur) = Inr fq"
  shows "\<exists>r. analyze_productivity cur prev = Inr r"
  using assms
  by (auto simp: analyze_productivity_def Let_def split: sum.splits prod.splits)

lemma analyze_march_february:
  "analyze_productivity march february =
     Inr \<lparr>total_change_percentage = Finite 100,
          additions_change_percentage = Finite 130,
          deletions_change_percentage = Finite (100 / 7),
          daily_average_changes = 54,
          daily_average_change_percentage = Finite 0,
          weekend_activity = 40, weekday_activity = 68,
          weekend_percentage = percentage_of 40 108,
          average_commit_interval_minutes = 3 / 2, commits_per_day = 3 / 2,
          most_active_repositories = [(''B'', 30), (''E'', 30), (''A'', 23), (''C'', 23), (''D'', 1)]\<rparr>"
  by (simp add: analysis_defs month_defs date_defs clock_defs percentage_of_def upt_rec)


lemma analyze_march_march: "\<exists>r. analyze_productivity march march = Inr r"
  by (simp add: analysis_defs month_defs date_defs clock_defs upt_rec)

lemma analyze_march_empty: "\<exists>r. analyze_productivity march empty_month = Inr r"
  by (simp add: analysis_defs month_defs date_defs clock_defs upt_rec)

lemma weekday_range: "0 \<le> weekday t \<and> weekday t < 7"
  by (simp add: weekday_def)

lemma weekend_loop_sums:
  "weekend_loop ds we wd = Inr (we', wd') \<Longrightarrow>
     we' = we + sum_list (map changes_of (filter is_weekend_key ds))
   \<and> wd' = wd + sum_list (map changes_of (filter is_weekday_key ds))
   \<and> (\<forall>kb \<in> set ds. is_weekend_key kb \<noteq> is_weekday_key kb)"
proof (induction ds arbitrary: we wd)
  case Nil
  then show ?case by simp
next
  case (Cons p ds)
  obtain d b where p: "p = (d, b)" by (cases p)
  from Cons.prems p obtain t where t: "strptime_ymd d = Some t"
    by (auto split: option.splits)
  have rng: "0 \<le> weekday t" "weekday t < 7" using weekday_range[of t] by simp_all
  show ?case
  proof (cases "weekday t \<ge> 5")
    case True
    with Cons.prems p t have "weekend_loop ds (we + (additions b + deletions b)) wd = Inr (we', wd')"
      by simp
    from Cons.IH[OF this] True rng p t show ?thesis
      by (auto simp: is_weekend_key_def is_weekday_key_def changes_of_def)
  next
    case False
    with Cons.prems p t have "weekend_loop ds we (wd + (additions b + deletions b)) = Inr (we', wd')"
      by simp
    from Cons.IH[OF this] False rng p t show ?thesis
      by (auto simp: is_weekend_key_def is_weekday_key_def changes_of_def)
  qed
qed

lemma weekend_loop_returns:
  "\<forall>k \<in> set (map fst ds). strptime_ymd k \<noteq> None \<Longrightarrow> \<exists>wk. weekend_loop ds we wd = Inr wk"
proof (induction ds arbitrary: we wd)
  case Nil
  then show ?case by simp
next
  case (Cons p ds)
  obtain d b where p: "p = (d, b)" by (cases p)
  with Cons.prems obtain t where t: "strptime_ymd d = Some t" by auto
  from Cons.prems have "\<forall>k \<in> set (map fst ds). strptime_ymd k \<noteq> None" by simp
  from Cons.IH[OF this] show ?case using p t by simp
qed

lemma commit_frequency_three:
  assumes "total_seconds t2 t1 = a" "total_seconds t3 t2 = b" "daily \<noteq> []"
  shows "commit_frequency [t1, t2, t3] daily = Inr ((a + b) / 2, 3 / real (length daily))"
  using assms by (simp add: commit_frequency_def mean_def upt_rec)

lemma sort_reverse_props:
  "mset (sort_reverse xs) = mset xs"
  "sorted_wrt (\<lambda>a b. snd b \<le> snd a) (sort_reverse xs)"
  "filter (\<lambda>x. snd x = k) (sort_reverse xs) = filter (\<lambda>x. snd x = k) xs"
proof -
  show "mset (sort_reverse xs) = mset xs" by (simp add: sort_reverse_def)
  have "sorted (map (\<lambda>x. - snd x) (sort_reverse xs))"
    unfolding sort_reverse_def by (rule sorted_sort_key)
  then show "sorted_wrt (\<lambda>a b. snd b \<le> snd a) (sort_reverse xs)"
    by (simp add: sorted_map)
  have "filter (\<lambda>x. - snd x = - k) (sort_key (\<lambda>x. - snd x) xs) = filter (\<lambda>x. - snd x = - k) xs"
    by (rule sort_key_stable)
  then show "filter (\<lambda>x. snd x = k) (sort_reverse xs) = filter (\<lambda>x. snd x = k) xs"
    by (simp add: sort_reverse_def)
qed

lemma share_sum:
  fixes a b :: real
  assumes "a + b \<noteq> 0"
  shows "a / (a + b) * 100 + b / (a + b) * 100 = 100"
proof -
  have "a / (a + b) * 100 + b / (a + b) * 100 = (a / (a + b) + b / (a + b)) * 100"
    by (simp only: distrib_right)
  also have "a / (a + b) + b / (a + b) = (a + b) / (a + b)"
    by (simp only: add_divide_distrib)
  also have "(a + b) / (a + b) = 1"
    using assms by simp
  finally show ?thesis by simp
qed

text \<open>When the analysis returns a report, and the one way it divides by zero.\<close>

lemma commit_frequency_returns:
  assumes "length stamps > 1 \<longrightarrow> daily \<noteq> []"
  shows "\<exists>fq. commit_frequency stamps daily = Inr fq"
  using assms by (auto simp: commit_frequency_def mean_def Let_def)

lemma analyze_productivity_returns:
  assumes "\<forall>k \<in> set (map fst (daily_stats cur)). strptime_ymd k \<noteq> None"
      and "length (commit_times cur) > 1 \<longrightarrow> daily_stats cur \<noteq> []"
  shows "\<exists>r. analyze_productivity cur prev = Inr r"
proof -
  from weekend_loop_returns[OF assms(1)] obtain wk
    where wk: "weekend_loop (daily_stats cur) 0 0 = Inr wk" by blast
  from commit_frequency_returns[OF assms(2)] obtain fq
    where fq: "commit_frequency (commit_times cur) (daily_stats cur) = Inr fq" by blast
  from wk fq show ?thesis by (rule analyze_returns)
qed

lemma cadence_defaults:
  assumes "analyze_productivity cur prev = Inr r" and "length (commit_times cur) < 2"
  shows "average_commit_interval_minutes r = 0 \<and> commits_per_day r = 0"
  using analyze_frequency[OF assms(1)] assms(2)
  by (simp add: commit_frequency_def)

lemma cadence_zero_division:
  assumes "\<forall>k \<in> set (map fst (daily_stats cur)). strptime_ymd k \<noteq> None"
      and "length (commit_times cur) > 1" and "daily_stats cur = []"
  shows "analyze_productivity cur prev = Inl ZeroDivisionError"
proof -
  from weekend_loop_returns[OF assms(1)] obtain wk
    where wk: "weekend_loop (daily_stats cur) 0 0 = Inr wk" by blast
  from assms(2,3) have "commit_frequency (commit_times cur) (daily_stats cur) = Inl ZeroDivisionError"
    by (auto simp: commit_frequency_def mean_def Let_def)
  with wk show ?thesis
    by (cases wk) (simp add: analyze_productivity_def Let_def)
qed

text \<open>
  Claim C4. Each of the four percentage fields is \<open>(curr - prev) / prev * 100\<close> when its
  own previous-period denominator is positive, and the infinite sentinel when that
  denominator is 0 and the current value is not 0; equal positive values give 0. The four
  pairs are total changes, additions, deletions and the daily averages.
\<close>

theorem percentage_change_definition:
  assumes "analyze_productivity cur prev = Inr r"
  shows "(0 < total_changes prev \<longrightarrow>
            total_change_percentage r =
              Finite (real_of_int (total_changes cur - total_changes prev)
                        / real_of_int (total_changes prev) * 100))
       \<and> (total_changes prev = 0 \<and> total_changes cur \<noteq> 0 \<longrightarrow> total_change_percentage r = PInf)
       \<and> (0 < total_additions prev \<longrightarrow>
            additions_change_percentage r =
              Finite (real_of_int (total_additions cur - total_additions prev)
                        / real_of_int (total_additions prev) * 100))
       \<and> (total_additions prev = 0 \<and> total_additions cur \<noteq> 0 \<longrightarrow>
            additions_change_percentage r = PInf)
       \<and> (0 < total_deletions prev \<longrightarrow>
            deletions_change_percentage r =
              Finite (real_of_int (total_deletions cur - total_deletions prev)
                        / real_of_int (total_deletions prev) * 100))
       \<and> (total_deletions prev = 0 \<and> total_deletions cur \<noteq> 0 \<longrightarrow>
            deletions_change_percentage r = PInf)
       \<and> (0 < daily_average prev \<longrightarrow>
            daily_average_change_percentage r =
              Finite ((daily_average cur - daily_average prev) / daily_average prev * 100))
       \<and> (daily_average prev = 0 \<and> daily_average cur \<noteq> 0 \<longrightarrow>
            daily_average_change_percentage r = PInf)
       \<and> (0 < total_changes prev \<and> total_changes cur = total_changes prev \<longrightarrow>
            total_change_percentage r = Finite 0)
       \<and> (0 < total_additions prev \<and> total_additions cur = total_additions prev \<longrightarrow>
            additions_change_percentage r = Finite 0)
       \<and> (0 < total_deletions prev \<and> total_deletions cur = total_deletions prev \<longrightarrow>
            deletions_change_percentage r = Finite 0)
       \<and> (0 < daily_average prev \<and> daily_average cur = daily_average prev \<longrightarrow>
            daily_average_change_percentage r = Finite 0)"
  using analyze_fields(1-4)[OF assms] by simp

theorem percentage_change_definition_witness:
  "(\<exists>r. analyze_productivity march march = Inr r
        \<and> total_change_percentage r = Finite 0 \<and> additions_change_percentage r = Finite 0
        \<and> deletions_change_percentage r = Finite 0 \<and> daily_average_change_percentage r = Finite 0)
   \<and> (\<exists>r. analyze_productivity march empty_month = Inr r
        \<and> total_change_percentage r = PInf \<and> additions_change_percentage r = PInf
        \<and> deletions_change_percentage r = PInf \<and> daily_average_change_percentage r = PInf)
   \<and> (\<exists>r. analyze_productivity march february = Inr r
        \<and> total_change_percentage r = Finite 100 \<and> additions_change_percentage r = Finite 130)"
proof -
  have pos: "0 < total_changes march" "0 < total_additions march" "0 < total_deletions march"
    "0 < daily_average march" "total_changes march \<noteq> 0" "total_additions march \<noteq> 0"
    "total_deletions march \<noteq> 0" "daily_average march \<noteq> 0"
    by (simp_all add: total_changes_def daily_average_def march_def)
  have zero: "total_changes empty_month = 0" "total_additions empty_month = 0"
    "total_deletions empty_month = 0" "daily_average empty_month = 0"
    by (simp_all add: total_changes_def daily_average_def empty_month_def)
  have feb: "0 < total_changes february" "0 < total_additions february"
    "real_of_int (total_changes march - total_changes february) / real_of_int (total_changes february) * 100 = 100"
    "real_of_int (total_additions march - total_additions february) / real_of_int (total_additions february) * 100 = 130"
    by (simp_all add: total_changes_def march_def february_def)
  from analyze_march_march obtain r1 where r1: "analyze_productivity march march = Inr r1" ..
  from analyze_march_empty obtain r2 where r2: "analyze_productivity march empty_month = Inr r2" ..
  from analyze_march_february obtain r3 where r3: "analyze_productivity march february = Inr r3"
    by blast
  from percentage_change_definition[OF r1] pos
  have a: "total_change_percentage r1 = Finite 0 \<and> additions_change_percentage r1 = Finite 0
        \<and> deletions_change_percentage r1 = Finite 0 \<and> daily_average_change_percentage r1 = Finite 0"
    by blast
  from percentage_change_definition[OF r2] pos zero
  have b: "total_change_percentage r2 = PInf \<and> additions_change_percentage r2 = PInf
        \<and> deletions_change_percentage r2 = PInf \<and> daily_average_change_percentage r2 = PInf"
    by blast
  from percentage_change_definition[OF r3] feb
  have c: "total_change_percentage r3 = Finite 100 \<and> additions_change_percentage r3 = Finite 130"
    by simp
  from r1 r2 r3 a b c show ?thesis by blast
qed



subsection \<open>The rounding error of the double-precision operations\<close>

lemma round_half_even_error:
  assumes "0 < q"
  shows "\<bar>real_of_int (round_half_even p q) - real_of_int p / real_of_int q\<bar> \<le> 1 / 2"
proof -
  define f r where "f = p div q" and "r = p mod q"
  have r: "0 \<le> r" "r < q" using assms by (simp_all add: r_def)
  have "p = q * f + r" by (simp add: f_def r_def)
  then have "real_of_int p = real_of_int q * real_of_int f + real_of_int r"
    by (metis of_int_add of_int_mult)
  then have pq: "real_of_int p / real_of_int q = real_of_int f + real_of_int r / real_of_int q"
    using assms by (simp add: field_simps)
  have frac: "0 \<le> real_of_int r / real_of_int q" "real_of_int r / real_of_int q < 1"
    using r assms by simp_all
  consider "2 * r < q" | "q < 2 * r" | "2 * r = q" by linarith
  then show ?thesis
  proof cases
    case 1
    then have "2 * real_of_int r < real_of_int q" by (metis of_int_less_iff of_int_mult of_int_numeral)
    then have "real_of_int r / real_of_int q < 1 / 2" using assms by (simp add: field_simps)
    moreover from 1 have "round_half_even p q = f"
      by (simp add: round_half_even_def f_def r_def Let_def)
    ultimately show ?thesis using pq frac by simp
  next
    case 2
    then have "real_of_int q < 2 * real_of_int r" by (metis of_int_less_iff of_int_mult of_int_numeral)
    then have "1 / 2 < real_of_int r / real_of_int q" using assms by (simp add: field_simps)
    moreover from 2 have "round_half_even p q = f + 1"
      by (simp add: round_half_even_def f_def r_def Let_def)
    ultimately show ?thesis using pq frac by simp
  next
    case 3
    then have "2 * real_of_int r = real_of_int q" by (metis of_int_mult of_int_numeral)
    then have half: "real_of_int r / real_of_int q = 1 / 2" using assms by (simp add: field_simps)
    from 3 have "round_half_even p q = f \<or> round_half_even p q = f + 1"
      by (simp add: round_half_even_def f_def r_def Let_def)
    then show ?thesis using pq half by auto
  qed
qed

lemma scale_value:
  assumes "0 < d" and "scale a d t = (p, q)"
  shows "0 < q \<and> real_of_int p / real_of_int q = real_of_int a / real_of_int d * 2 powi (- t)"
proof (cases "0 \<le> t")
  case True
  with assms(2) have pq: "p = a" "q = d * 2 ^ nat t" by (simp_all add: scale_def)
  from True have "(2::real) powi (- t) = 1 / 2 ^ nat t"
    by (simp add: power_int_def divide_simps)
  with pq assms(1) show ?thesis by simp
next
  case False
  with assms(2) have pq: "p = a * 2 ^ nat (- t)" "q = d" by (simp_all add: scale_def)
  from False have "(2::real) powi (- t) = 2 ^ nat (- t)"
    by (simp add: power_int_def)
  with pq assms(1) show ?thesis by simp
qed

lemma two_powi_diff: "(2::real) powi (m - n) = 2 powi m / 2 powi n"
  by (simp add: power_int_diff)

lemma two_powi_add: "(2::real) powi (m + n) = 2 powi m * 2 powi n"
  by (simp add: power_int_add)

lemma two_powi_cancel: "(2::real) powi (- n) * 2 powi n = 1"
  by (simp add: power_int_minus)

lemma exponent_lower:
  assumes "0 < a" "0 < d"
  defines "k \<equiv> bitlen a - bitlen d"
  shows "(2::real) powi (k - 1) \<le> real_of_int a / real_of_int d"
proof -
  from bitlen_bounds[OF assms(1)] have lo: "2 ^ nat (bitlen a - 1) \<le> a" by simp
  from bitlen_bounds[OF assms(2)] have hi: "d < 2 ^ nat (bitlen d)" by simp
  have ba: "1 \<le> bitlen a" using assms(1) bitlen_eq_zero_iff[of a] bitlen_nonneg[of a] by linarith
  have bd: "0 \<le> bitlen d" by (rule bitlen_nonneg)
  from lo have "real_of_int (2 ^ nat (bitlen a - 1)) \<le> real_of_int a" by (simp only: of_int_le_iff)
  then have lo': "(2::real) powi (bitlen a - 1) \<le> real_of_int a"
    using ba by (simp add: power_int_def)
  from hi have "real_of_int d < real_of_int (2 ^ nat (bitlen d))" by (simp only: of_int_less_iff)
  then have hi': "real_of_int d \<le> (2::real) powi bitlen d"
    using bd by (simp add: power_int_def)
  have "k - 1 = (bitlen a - 1) - bitlen d" by (simp add: k_def)
  then have "(2::real) powi (k - 1) = 2 powi (bitlen a - 1) / 2 powi bitlen d"
    by (simp only: two_powi_diff)
  also have "\<dots> \<le> real_of_int a / 2 powi bitlen d"
    using lo' by (simp add: divide_right_mono)
  also have "\<dots> \<le> real_of_int a / real_of_int d"
    using hi' assms by (simp add: frac_le)
  finally show ?thesis .
qed

lemma round_double_error:
  assumes "0 < d"
  shows "\<bar>float_value (round_double n d t) - real_of_int n / real_of_int d * 2 powi t\<bar>
           \<le> \<bar>real_of_int n / real_of_int d * 2 powi t\<bar> / 2 ^ 53"
proof (cases "n = 0")
  case True
  then show ?thesis by (simp add: round_double_def float_value_def)
next
  case False
  define a where "a = \<bar>n\<bar>"
  define k where "k = bitlen a - bitlen d"
  define e where "e = (case scale a d k of (p, q) \<Rightarrow> if q \<le> p then k else k - 1)"
  define m where "m = (case scale a d (e - 52) of (p, q) \<Rightarrow> round_half_even p q)"
  define x where "x = real_of_int a / real_of_int d"
  define s :: real where "s = 2 powi (e - 52)"
  have a: "0 < a" using False by (simp add: a_def)
  have x: "0 < x" using a assms by (simp add: x_def)
  have s: "0 < s" by (simp add: s_def)
  have rd: "round_double n d t = \<lparr>mantissa = sgn n * m, exponent = e - 52 + t\<rparr>"
    unfolding round_double_def Let_def m_def e_def k_def a_def using False by simp
  \<comment> \<open>the exponent is not above the binary logarithm of \<open>x\<close>\<close>
  have lower: "2 powi e \<le> x"
  proof -
    obtain p q where pq: "scale a d k = (p, q)" by (cases "scale a d k")
    from scale_value[OF assms pq] have q: "0 < q"
      and v: "real_of_int p / real_of_int q = x * 2 powi (- k)" by (simp_all add: x_def)
    show ?thesis
    proof (cases "q \<le> p")
      case True
      then have "1 \<le> real_of_int p / real_of_int q" using q by simp
      with v have "1 \<le> x * 2 powi (- k)" by simp
      then have "2 powi k \<le> x" by (simp add: power_int_minus field_simps)
      moreover from True pq have "e = k" by (simp add: e_def)
      ultimately show ?thesis by simp
    next
      case False
      with pq have "e = k - 1" by (simp add: e_def)
      with exponent_lower[OF a assms] show ?thesis by (simp add: k_def x_def)
    qed
  qed
  \<comment> \<open>the scaled value and its rounding\<close>
  obtain p q where pq: "scale a d (e - 52) = (p, q)" by (cases "scale a d (e - 52)")
  from scale_value[OF assms pq] have q: "0 < q"
    and v: "real_of_int p / real_of_int q = x * 2 powi (- (e - 52))" by (simp_all add: x_def)
  define y where "y = real_of_int p / real_of_int q"
  have ys: "y * s = x"
  proof -
    have "y * s = x * (2 powi (- (e - 52)) * 2 powi (e - 52))"
      unfolding y_def v s_def by (simp only: mult.assoc)
    then show ?thesis by (simp only: two_powi_cancel mult_1_right)
  qed
  from pq have m: "m = round_half_even p q" by (simp add: m_def)
  from round_half_even_error[OF q, of p] have err: "\<bar>real_of_int m - y\<bar> \<le> 1 / 2"
    by (simp add: m y_def)
  have "(2::real) powi e = 2 powi 52 * 2 powi (e - 52)"
    by (simp only: two_powi_add[symmetric]) simp
  then have "2 powi e = 2 ^ 52 * s"
    unfolding s_def by simp
  with lower have big: "2 ^ 52 * s \<le> x" by simp
  have "real_of_int m * s - x = (real_of_int m - y) * s"
    unfolding ys[symmetric] by (simp add: algebra_simps)
  then have "\<bar>real_of_int m * s - x\<bar> = \<bar>real_of_int m - y\<bar> * s"
    using s by (simp add: abs_mult)
  also have "\<dots> \<le> 1 / 2 * s" using err s by (simp add: mult_right_mono)
  also have "\<dots> \<le> x / 2 ^ 53" using big by simp
  finally have core: "\<bar>real_of_int m * s - x\<bar> \<le> x / 2 ^ 53" .
  \<comment> \<open>sign and the outer power of two\<close>
  have nx: "real_of_int n / real_of_int d = real_of_int (sgn n) * x"
    unfolding x_def a_def by (simp add: sgn_if)
  have sg: "\<bar>real_of_int (sgn n)\<bar> = 1" using False by (simp add: sgn_if)
  have fv: "float_value (round_double n d t) = real_of_int (sgn n) * (real_of_int m * s) * 2 powi t"
    unfolding rd float_value_def s_def by (simp add: two_powi_add)
  have "float_value (round_double n d t) - real_of_int n / real_of_int d * 2 powi t
          = real_of_int (sgn n) * (real_of_int m * s - x) * 2 powi t"
    unfolding fv nx by (simp add: algebra_simps)
  then have "\<bar>float_value (round_double n d t) - real_of_int n / real_of_int d * 2 powi t\<bar>
          = \<bar>real_of_int m * s - x\<bar> * 2 powi t"
    using sg by (simp add: abs_mult)
  also have "\<dots> \<le> x / 2 ^ 53 * 2 powi t"
    using core by (simp add: mult_right_mono)
  also have "\<dots> = \<bar>real_of_int n / real_of_int d * 2 powi t\<bar> / 2 ^ 53"
    unfolding nx using x sg by (simp add: abs_mult)
  finally show ?thesis .
qed

lemma two_roundings:
  fixes p v x u :: real
  assumes "0 \<le> u" "u \<le> 1" "\<bar>v - x\<bar> \<le> \<bar>x\<bar> * u" "\<bar>p - v * 100\<bar> \<le> \<bar>v * 100\<bar> * u"
  shows "\<bar>p - x * 100\<bar> \<le> 300 * (\<bar>x\<bar> * u)"
proof -
  have xu: "\<bar>x\<bar> * u \<le> \<bar>x\<bar>" using assms(1,2) by (simp add: mult_left_le)
  have "\<bar>v\<bar> \<le> \<bar>x\<bar> + \<bar>x\<bar> * u" using assms(3) by linarith
  with xu have "\<bar>v\<bar> \<le> 2 * \<bar>x\<bar>" by linarith
  then have "\<bar>v * 100\<bar> \<le> 200 * \<bar>x\<bar>" by (simp add: abs_mult)
  then have "\<bar>v * 100\<bar> * u \<le> (200 * \<bar>x\<bar>) * u" using assms(1) by (rule mult_right_mono)
  then have "\<bar>p - v * 100\<bar> \<le> 200 * (\<bar>x\<bar> * u)" using assms(4) by linarith
  moreover have "\<bar>p - x * 100\<bar> \<le> \<bar>p - v * 100\<bar> + 100 * \<bar>v - x\<bar>"
  proof -
    have "p - x * 100 = (p - v * 100) + (v - x) * 100" by (simp add: algebra_simps)
    then have "\<bar>p - x * 100\<bar> \<le> \<bar>p - v * 100\<bar> + \<bar>(v - x) * 100\<bar>"
      by (simp only: abs_triangle_ineq)
    moreover have "\<bar>(v - x) * 100\<bar> = 100 * \<bar>v - x\<bar>"
    proof -
      have "\<bar>(v - x) * 100\<bar> = \<bar>v - x\<bar> * \<bar>100\<bar>" by (rule abs_mult)
      also have "\<dots> = 100 * \<bar>v - x\<bar>" by simp
      finally show ?thesis .
    qed
    ultimately show ?thesis by (simp only:)
  qed
  ultimately show ?thesis using assms(3) by linarith
qed

lemma percentage_of_error:
  assumes "0 < whole"
  shows "\<bar>percentage_of part whole - real_of_int part / real_of_int whole * 100\<bar>
           \<le> 300 * (\<bar>real_of_int part / real_of_int whole\<bar> * (1 / 2 ^ 53))"
proof -
  define x where "x = real_of_int part / real_of_int whole"
  define q where "q = truediv part whole"
  define v where "v = float_value q"
  define u :: real where "u = 1 / 2 ^ 53"
  have u: "0 \<le> u" "u \<le> 1" by (simp_all add: u_def)
  have "\<bar>float_value (round_double part whole 0) - real_of_int part / real_of_int whole * 2 powi 0\<bar>
          \<le> \<bar>real_of_int part / real_of_int whole * 2 powi 0\<bar> / 2 ^ 53"
    using assms by (rule round_double_error)
  then have e1: "\<bar>v - x\<bar> \<le> \<bar>x\<bar> * u"
    unfolding v_def q_def truediv_def x_def u_def by simp
  have val: "real_of_int (mantissa q * 100) / real_of_int 1 * 2 powi exponent q = v * 100"
    by (simp add: v_def float_value_def)
  have "\<bar>float_value (round_double (mantissa q * 100) 1 (exponent q))
          - real_of_int (mantissa q * 100) / real_of_int 1 * 2 powi exponent q\<bar>
        \<le> \<bar>real_of_int (mantissa q * 100) / real_of_int 1 * 2 powi exponent q\<bar> / 2 ^ 53"
    by (rule round_double_error) simp
  then have "\<bar>float_value (round_double (mantissa q * 100) 1 (exponent q)) - v * 100\<bar>
        \<le> \<bar>v * 100\<bar> / 2 ^ 53"
    by (simp only: val)
  moreover have "percentage_of part whole = float_value (round_double (mantissa q * 100) 1 (exponent q))"
    by (simp add: percentage_of_def float_mul_int_def q_def)
  ultimately have e2: "\<bar>percentage_of part whole - v * 100\<bar> \<le> \<bar>v * 100\<bar> * u"
    by (simp add: u_def)
  from two_roundings[OF u e1 e2] show ?thesis unfolding x_def u_def .
qed

lemma percentage_shares_sum:
  assumes "0 < a + b" "0 \<le> a" "0 \<le> b"
  shows "\<bar>percentage_of a (a + b) + percentage_of b (a + b) - 100\<bar> \<le> 300 / 2 ^ 53"
proof -
  define x y where "x = real_of_int a / real_of_int (a + b)"
    and "y = real_of_int b / real_of_int (a + b)"
  define u :: real where "u = 1 / 2 ^ 53"
  have nz: "real_of_int (a + b) \<noteq> 0" using assms(1) by simp
  have "x + y = (real_of_int a + real_of_int b) / real_of_int (a + b)"
    unfolding x_def y_def by (simp only: add_divide_distrib)
  then have xy: "x + y = 1" using nz by simp
  have pos: "0 \<le> x" "0 \<le> y" using assms by (simp_all add: x_def y_def)
  have ea: "\<bar>percentage_of a (a + b) - x * 100\<bar> \<le> 300 * (\<bar>x\<bar> * u)"
    unfolding x_def u_def using assms(1) by (rule percentage_of_error)
  have eb: "\<bar>percentage_of b (a + b) - y * 100\<bar> \<le> 300 * (\<bar>y\<bar> * u)"
    unfolding y_def u_def using assms(1) by (rule percentage_of_error)
  have hundred: "x * 100 + y * 100 = 100"
    using xy by (simp add: distrib_right[symmetric])
  have "\<bar>x\<bar> * u + \<bar>y\<bar> * u = u"
    using pos xy by (simp add: distrib_right[symmetric])
  with ea eb hundred have "\<bar>percentage_of a (a + b) + percentage_of b (a + b) - 100\<bar> \<le> 300 * u"
    by linarith
  then show ?thesis by (simp add: u_def)
qed

lemma percent_one_third:
  "float_mul_int (truediv 1 3) 100 = \<lparr>mantissa = 4691249611844266, exponent = - 47\<rparr>"
  by code_simp

lemma percent_two_thirds:
  "float_mul_int (truediv 2 3) 100 = \<lparr>mantissa = 4691249611844266, exponent = - 46\<rparr>"
  by code_simp

lemma percent_of_march:
  "float_mul_int (truediv 40 108) 100 = \<lparr>mantissa = 5212499568715852, exponent = - 47\<rparr>"
  by code_simp

lemma analyze_thirds:
  "analyze_productivity thirds empty_month =
     Inr \<lparr>total_change_percentage = PInf,
          additions_change_percentage = PInf,
          deletions_change_percentage = PInf,
          daily_average_changes = 3 / 2,
          daily_average_change_percentage = PInf,
          weekend_activity = 1, weekday_activity = 2,
          weekend_percentage = percentage_of 1 3,
          average_commit_interval_minutes = 2820, commits_per_day = 1,
          most_active_repositories = [(''A'', 3)]\<rparr>"
  by (simp add: analysis_defs thirds_def empty_month_def stamp_def bkt_def date_defs clock_defs
        percentage_of_def upt_rec)

text \<open>
  The calendar of the model on dates whose day of the week is known: the week from Monday
  4 March 2024 to Sunday 10 March 2024, Tuesday 29 February 2000, Thursday 1 March 1900,
  Monday 1 January of the year 1 and Friday 31 December 9999.
\<close>

lemma weekday_known_dates:
  "map (map_option weekday \<circ> strptime_ymd)
     [''2024-03-04'', ''2024-03-05'', ''2024-03-06'', ''2024-03-07'', ''2024-03-08'',
      ''2024-03-09'', ''2024-03-10'', ''2000-02-29'', ''1900-03-01'', ''0001-01-01'',
      ''9999-12-31'']
   = [Some 0, Some 1, Some 2, Some 3, Some 4, Some 5, Some 6, Some 1, Some 3, Some 0, Some 4]"
  "strptime_ymd ''1900-02-29'' = None"
  "strptime_ymd ''2024-02-30'' = None"
  "strptime_ymd ''2024-13-01'' = None"
  by (simp_all add: date_defs)

text \<open>
  Claim C7, as stated, fails on the sum: with weekend activity 1 and weekday activity 2,
  line 202 gives the double 33.33333333333333 (4691249611844266 / 2^47), the weekday
  percentage 2 / 3 * 100 is the double 66.66666666666666, and their sum is the double
  99.99999999999999 (100 - 1 / 2^46), not 100.
\<close>

theorem weekend_weekday_sum_counterexample:
  "map_sum id weekend_activity (analyze_productivity thirds empty_month) = Inr 1
   \<and> map_sum id weekday_activity (analyze_productivity thirds empty_month) = Inr 2
   \<and> map_sum id weekend_percentage (analyze_productivity thirds empty_month)
       = Inr (4691249611844266 / 2 ^ 47)
   \<and> percentage_of 2 (1 + 2) = 4691249611844266 / 2 ^ 46
   \<and> 4691249611844266 / 2 ^ 47 + 4691249611844266 / 2 ^ 46
       = float_value \<lparr>mantissa = 7036874417766399, exponent = - 46\<rparr>
   \<and> float_value \<lparr>mantissa = 7036874417766399, exponent = - 46\<rparr> = 100 - 1 / 2 ^ 46
   \<and> 4691249611844266 / 2 ^ 47 + 4691249611844266 / 2 ^ 46 \<noteq> (100::real)"
proof -
  have a: "percentage_of 1 3 = 4691249611844266 / 2 ^ 47"
    by (simp add: percentage_of_def percent_one_third float_value_def)
  have b: "percentage_of 2 (1 + 2) = 4691249611844266 / 2 ^ 46"
    by (simp add: percentage_of_def percent_two_thirds float_value_def)
  have c: "float_value \<lparr>mantissa = 7036874417766399, exponent = - 46\<rparr> = 100 - 1 / 2 ^ 46"
    by (simp add: float_value_def)
  have d: "(4691249611844266 / 2 ^ 47 + 4691249611844266 / 2 ^ 46 :: real)
             = float_value \<lparr>mantissa = 7036874417766399, exponent = - 46\<rparr>"
    by (simp add: float_value_def)
  have e: "4691249611844266 / 2 ^ 47 + 4691249611844266 / 2 ^ 46 \<noteq> (100::real)"
    by simp
  from a b c d e show ?thesis by (simp only: analyze_thirds) simp
qed

text \<open>
  Claim C7, amended. The weekend activity is the sum of additions + deletions over the day
  keys that fall on a Saturday or Sunday, the weekday activity the sum over those from
  Monday to Friday, and every key is of exactly one kind. The weekend percentage is
  \<open>weekend / (weekend + weekday) * 100\<close> evaluated in double precision, and 0 when the total
  is not positive, in particular when both are 0. In exact arithmetic the weekend and the
  weekday percentage sum to 100 whenever the total is positive; as computed in double
  precision, for activities that are not negative, their sum differs from 100 by at most
  300 / 2^53 (less than 3.4e-14).
\<close>

theorem weekend_weekday_split:
  assumes "analyze_productivity cur prev = Inr r"
  shows "weekend_activity r = sum_list (map changes_of (filter is_weekend_key (daily_stats cur)))
       \<and> weekday_activity r = sum_list (map changes_of (filter is_weekday_key (daily_stats cur)))
       \<and> (\<forall>kb \<in> set (daily_stats cur). is_weekend_key kb \<noteq> is_weekday_key kb)
       \<and> weekend_percentage r =
           (if 0 < weekend_activity r + weekday_activity r
            then percentage_of (weekend_activity r) (weekend_activity r + weekday_activity r)
            else 0)
       \<and> (weekend_activity r = 0 \<and> weekday_activity r = 0 \<longrightarrow> weekend_percentage r = 0)
       \<and> (0 < weekend_activity r + weekday_activity r \<longrightarrow>
            real_of_int (weekend_activity r)
                / real_of_int (weekend_activity r + weekday_activity r) * 100
              + real_of_int (weekday_activity r)
                  / real_of_int (weekend_activity r + weekday_activity r) * 100 = 100)
       \<and> (0 < weekend_activity r + weekday_activity r
            \<and> 0 \<le> weekend_activity r \<and> 0 \<le> weekday_activity r \<longrightarrow>
            \<bar>weekend_percentage r
               + percentage_of (weekday_activity r) (weekend_activity r + weekday_activity r)
               - 100\<bar> \<le> 300 / 2 ^ 53)"
proof -
  note sums = weekend_loop_sums[OF analyze_weekend(1)[OF assms]]
  note pct = analyze_weekend(2)[OF assms]
  have exact: "real_of_int (weekend_activity r)
                / real_of_int (weekend_activity r + weekday_activity r) * 100
              + real_of_int (weekday_activity r)
                  / real_of_int (weekend_activity r + weekday_activity r) * 100 = 100"
    if "0 < weekend_activity r + weekday_activity r"
  proof -
    from that have nz: "real_of_int (weekend_activity r) + real_of_int (weekday_activity r) \<noteq> 0"
      by linarith
    from share_sum[OF nz] show ?thesis by simp
  qed
  have rounded: "\<bar>weekend_percentage r
               + percentage_of (weekday_activity r) (weekend_activity r + weekday_activity r)
               - 100\<bar> \<le> 300 / 2 ^ 53"
    if "0 < weekend_activity r + weekday_activity r" "0 \<le> weekend_activity r"
      "0 \<le> weekday_activity r"
    using percentage_shares_sum[OF that] pct that(1) by simp
  from sums pct exact rounded show ?thesis by simp
qed

theorem weekend_weekday_split_witness:
  "\<exists>r. analyze_productivity march february = Inr r
      \<and> weekend_activity r = 40 \<and> weekday_activity r = 68
      \<and> is_weekend_key (''2024-03-02'', bkt 30 10 5) \<and> is_weekday_key (''2024-03-04'', bkt 62 6 7)
      \<and> weekend_percentage r = 5212499568715852 / 2 ^ 47
      \<and> \<bar>weekend_percentage r + percentage_of 68 108 - 100\<bar> \<le> 300 / 2 ^ 53"
proof -
  from analyze_march_february obtain r where r: "analyze_productivity march february = Inr r"
    by blast
  have keys: "is_weekend_key (''2024-03-02'', bkt 30 10 5)" "is_weekday_key (''2024-03-04'', bkt 62 6 7)"
    by (simp_all add: is_weekend_key_def is_weekday_key_def date_defs)
  have sums: "sum_list (map changes_of (filter is_weekend_key (daily_stats march))) = 40"
    "sum_list (map changes_of (filter is_weekday_key (daily_stats march))) = 68"
    by (simp_all add: march_def bkt_def changes_of_def is_weekend_key_def is_weekday_key_def date_defs)
  have val: "percentage_of 40 108 = 5212499568715852 / 2 ^ 47"
    by (simp add: percentage_of_def percent_of_march float_value_def)
  note split = weekend_weekday_split[OF r]
  from split sums have act: "weekend_activity r = 40" "weekday_activity r = 68"
    by simp_all
  from split have "weekend_percentage r =
           (if 0 < weekend_activity r + weekday_activity r
            then percentage_of (weekend_activity r) (weekend_activity r + weekday_activity r)
            else 0)"
    by blast
  with act val have pct: "weekend_percentage r = 5212499568715852 / 2 ^ 47"
    by simp
  from split have "0 < weekend_activity r + weekday_activity r
            \<and> 0 \<le> weekend_activity r \<and> 0 \<le> weekday_activity r \<longrightarrow>
            \<bar>weekend_percentage r
               + percentage_of (weekday_activity r) (weekend_activity r + weekday_activity r)
               - 100\<bar> \<le> 300 / 2 ^ 53"
    by blast
  with act have bound: "\<bar>weekend_percentage r + percentage_of 68 108 - 100\<bar> \<le> 300 / 2 ^ 53"
    by simp
  from r act keys pct bound show ?thesis by blast
qed

lemmas run_defs = aggregate_def initial_stats_def scenario_commits_def commit_of_def
  repo_name_of_def strptime_iso_def strftime_ymd_def fmt2_def digit_char_def requests_get_def
  listing_def ok_def not_found_def Let_def

text \<open>
  Claim C8. The list of most active repositories is the first 5 elements of the
  (repository name, additions + deletions) pairs of the repository buckets, ranked in
  descending order of the total by a stable sort: the ranking is a permutation of the
  pairs, it is descending, and pairs of equal total keep their encounter order.
\<close>

theorem most_active_ranking:
  assumes "analyze_productivity cur prev = Inr r"
  shows "\<exists>ranked.
           most_active_repositories r = take 5 ranked
         \<and> mset ranked = mset (map (\<lambda>(repo, b). (repo, additions b + deletions b)) (repo_stats cur))
         \<and> sorted_wrt (\<lambda>x y. snd y \<le> snd x) ranked
         \<and> (\<forall>k. filter (\<lambda>x. snd x = k) ranked
                  = filter (\<lambda>x. snd x = k)
                      (map (\<lambda>(repo, b). (repo, additions b + deletions b)) (repo_stats cur)))"
proof -
  let ?acts = "repo_activity_of (repo_stats cur)"
  have acts: "?acts = map (\<lambda>(repo, b). (repo, additions b + deletions b)) (repo_stats cur)"
    by (simp add: repo_activity_of_def)
  have "most_active_repositories r = take 5 (sort_reverse ?acts)"
    by (rule analyze_fields(6)[OF assms])
  moreover have "mset (sort_reverse ?acts) = mset ?acts"
    by (rule sort_reverse_props(1))
  moreover have "sorted_wrt (\<lambda>x y. snd y \<le> snd x) (sort_reverse ?acts)"
    by (rule sort_reverse_props(2))
  moreover have "\<forall>k. filter (\<lambda>x. snd x = k) (sort_reverse ?acts) = filter (\<lambda>x. snd x = k) ?acts"
    by (simp add: sort_reverse_props(3))
  ultimately show ?thesis unfolding acts by blast
qed

theorem most_active_ranking_witness:
  "\<exists>r. analyze_productivity march february = Inr r
      \<and> most_active_repositories r = [(''B'', 30), (''E'', 30), (''A'', 23), (''C'', 23), (''D'', 1)]
      \<and> (\<exists>ranked. most_active_repositories r = take 5 ranked
            \<and> mset ranked = mset [(''A'', 23), (''B'', 30), (''C'', 23), (''D'', 1), (''E'', 30), (''F'', 1)]
            \<and> sorted_wrt (\<lambda>x y. snd y \<le> snd x) ranked
            \<and> filter (\<lambda>x. snd x = 23) ranked = [(''A'', 23), (''C'', 23)]
            \<and> filter (\<lambda>x. snd x = 30) ranked = [(''B'', 30), (''E'', 30)])"
proof -
  have acts: "map (\<lambda>(repo, b). (repo, additions b + deletions b)) (repo_stats march)
                = [(''A'', 23), (''B'', 30), (''C'', 23), (''D'', 1), (''E'', 30), (''F'', 1)]"
    by (simp add: march_def bkt_def)
  from analyze_march_february obtain r where r: "analyze_productivity march february = Inr r"
    and top: "most_active_repositories r = [(''B'', 30), (''E'', 30), (''A'', 23), (''C'', 23), (''D'', 1)]"
    by simp
  from most_active_ranking[OF r] obtain ranked where
    rk: "most_active_repositories r = take 5 ranked"
        "mset ranked = mset (map (\<lambda>(repo, b). (repo, additions b + deletions b)) (repo_stats march))"
        "sorted_wrt (\<lambda>x y. snd y \<le> snd x) ranked"
        "\<forall>k. filter (\<lambda>x. snd x = k) ranked
               = filter (\<lambda>x. snd x = k)
                   (map (\<lambda>(repo, b). (repo, additions b + deletions b)) (repo_stats march))"
    by blast
  from rk(4) have "filter (\<lambda>x. snd x = 23) ranked = [(''A'', 23), (''C'', 23)]"
    and "filter (\<lambda>x. snd x = 30) ranked = [(''B'', 30), (''E'', 30)]"
    unfolding acts by simp_all
  with rk(1-3) r top show ?thesis unfolding acts by blast
qed

text \<open>
  Claim C6, as stated, fails: for the timestamps t, t + 60 s, t + 180 s the consecutive
  differences are 60 s and 120 s, whose mean is 90 s, reported as 1.5 minutes and not as
  2 minutes. The snapshot below is the one the aggregation returns for three such commits.
\<close>

theorem cadence_scenario_counterexample:
  "fst (aggregate ''acme'' scenario_commits scenario_world) = Inr (16, 7, scenario_snapshot)
   \<and> commit_times scenario_snapshot
       = [stamp 2024 3 2 10 0 0, stamp 2024 3 2 10 1 0, stamp 2024 3 2 10 3 0]
   \<and> total_seconds (stamp 2024 3 2 10 1 0) (stamp 2024 3 2 10 0 0) = 60
   \<and> total_seconds (stamp 2024 3 2 10 3 0) (stamp 2024 3 2 10 0 0) = 180
   \<and> map_sum id average_commit_interval_minutes
         (analyze_productivity (with_totals (16, 7, scenario_snapshot)) empty_month) = Inr (3 / 2)
   \<and> map_sum id average_commit_interval_minutes
         (analyze_productivity (with_totals (16, 7, scenario_snapshot)) empty_month) \<noteq> Inr 2"
proof -
  have "fst (aggregate ''acme'' scenario_commits scenario_world) = Inr (16, 7, scenario_snapshot)"
    by (simp add: run_defs date_defs scenario_world_def scenario_snapshot_def stamp_def bkt_def)
  moreover have "commit_times scenario_snapshot
       = [stamp 2024 3 2 10 0 0, stamp 2024 3 2 10 1 0, stamp 2024 3 2 10 3 0]"
    by (simp add: scenario_snapshot_def)
  moreover have "total_seconds (stamp 2024 3 2 10 1 0) (stamp 2024 3 2 10 0 0) = 60"
    and "total_seconds (stamp 2024 3 2 10 3 0) (stamp 2024 3 2 10 0 0) = 180"
    by (simp_all add: stamp_def clock_defs date_defs)
  moreover have "map_sum id average_commit_interval_minutes
         (analyze_productivity (with_totals (16, 7, scenario_snapshot)) empty_month) = Inr (3 / 2)"
    by (simp add: analysis_defs with_totals_def scenario_snapshot_def empty_month_def stamp_def
          bkt_def date_defs clock_defs upt_rec)
  ultimately show ?thesis by simp
qed

text \<open>
  Claim C6, amended. For a current snapshot with the timestamps t, t + 60 s, t + 180 s in
  collection order, at least one day bucket and day keys that parse, the analysis returns
  a report whose average commit interval is 90 seconds, reported as 1.5 minutes, and whose
  commits per day are 3 divided by the number of day buckets.
\<close>

theorem cadence_scenario:
  assumes "commit_times cur = [t1, t2, t3]"
      and "total_seconds t2 t1 = 60" and "total_seconds t3 t1 = 180"
      and "daily_stats cur \<noteq> []"
      and "\<forall>k \<in> set (map fst (daily_stats cur)). strptime_ymd k \<noteq> None"
  shows "\<exists>r. analyze_productivity cur prev = Inr r
           \<and> average_commit_interval_minutes r * 60 = 90
           \<and> average_commit_interval_minutes r = 3 / 2
           \<and> commits_per_day r = 3 / real (length (daily_stats cur))"
proof -
  from assms(2,3) have d32: "total_seconds t3 t2 = 120"
    by (simp add: total_seconds_def)
  from weekend_loop_returns[OF assms(5)] obtain wk
    where wk: "weekend_loop (daily_stats cur) 0 0 = Inr wk" by blast
  have fq: "commit_frequency (commit_times cur) (daily_stats cur)
              = Inr (90, 3 / real (length (daily_stats cur)))"
    using commit_frequency_three[OF assms(2) d32 assms(4)] assms(1) by simp
  from analyze_returns[OF wk fq] obtain r where r: "analyze_productivity cur prev = Inr r" ..
  from analyze_frequency[OF r] fq have "average_commit_interval_minutes r * 60 = 90"
    and "commits_per_day r = 3 / real (length (daily_stats cur))" by simp_all
  with r show ?thesis by auto
qed

theorem cadence_scenario_witness:
  "commit_times march = [stamp 2024 3 2 10 0 0, stamp 2024 3 2 10 1 0, stamp 2024 3 2 10 3 0]
   \<and> total_seconds (stamp 2024 3 2 10 1 0) (stamp 2024 3 2 10 0 0) = 60
   \<and> total_seconds (stamp 2024 3 2 10 3 0) (stamp 2024 3 2 10 0 0) = 180
   \<and> daily_stats march \<noteq> []
   \<and> map (map_option weekday \<circ> strptime_ymd \<circ> fst) (daily_stats march) = [Some 5, Some 0]
   \<and> (\<exists>r. analyze_productivity march empty_month = Inr r
         \<and> average_commit_interval_minutes r = 3 / 2 \<and> commits_per_day r = 3 / 2)"
proof -
  have a: "commit_times march = [stamp 2024 3 2 10 0 0, stamp 2024 3 2 10 1 0, stamp 2024 3 2 10 3 0]"
    by (simp add: march_def)
  have b: "total_seconds (stamp 2024 3 2 10 1 0) (stamp 2024 3 2 10 0 0) = 60"
    and c: "total_seconds (stamp 2024 3 2 10 3 0) (stamp 2024 3 2 10 0 0) = 180"
    by (simp_all add: stamp_def clock_defs date_defs)
  have d: "daily_stats march \<noteq> []" by (simp add: march_def)
  have e: "\<forall>k \<in> set (map fst (daily_stats march)). strptime_ymd k \<noteq> None"
    by (simp add: march_def date_defs)
  have len: "real (length (daily_stats march)) = 2" by (simp add: march_def)
  from cadence_scenario[OF a b c d e, of empty_month] obtain r
    where r: "analyze_productivity march empty_month = Inr r"
      "average_commit_interval_minutes r = 3 / 2"
      "commits_per_day r = 3 / real (length (daily_stats march))"
    by blast
  from r(3) len have g: "commits_per_day r = 3 / 2" by simp
  have f: "map (map_option weekday \<circ> strptime_ymd \<circ> fst) (daily_stats march) = [Some 5, Some 0]"
    by (simp add: march_def date_defs)
  from r(1,2) g a b c d f show ?thesis by blast
qed

text \<open>
  Claim C5: the division of line 184 is not guarded. When no commit detail can be fetched
  the aggregation returns two or more timestamps and no day bucket, and the analysis of
  that snapshot raises ZeroDivisionError.
\<close>

theorem commits_per_day_zero_division:
  "fst (aggregate ''acme'' scenario_commits failing_world) = Inr (0, 0, failed_snapshot)
   \<and> analyze_productivity (with_totals (0, 0, failed_snapshot)) empty_month = Inl ZeroDivisionError"
proof -
  have "fst (aggregate ''acme'' scenario_commits failing_world) = Inr (0, 0, failed_snapshot)"
    by (simp add: run_defs date_defs failing_world_def failed_snapshot_def stamp_def)
  moreover have "analyze_productivity (with_totals (0, 0, failed_snapshot)) empty_month
                   = Inl ZeroDivisionError"
    by (simp add: analysis_defs with_totals_def failed_snapshot_def empty_month_def stamp_def)
  ultimately show ?thesis by simp
qed

section \<open>The aggregation\<close>

lemma bucket_sum_add:
  "bucket_sum additions (bucket_add k a d xs) = bucket_sum additions xs + a"
  "bucket_sum deletions (bucket_add k a d xs) = bucket_sum deletions xs + d"
  "bucket_sum commits (bucket_add k a d xs) = bucket_sum commits xs + 1"
  by (induction xs; auto simp: bucket_sum_def)+

text \<open>One pass of the loop body, for a run that does not raise.\<close>

lemma stats_loop_step:
  assumes "stats_loop org (c # cs) st w = (Inr st', w')"
  obtains repo_name commit_date response w1 where
    "repo_name_of (url c) = Inr repo_name"
    "strptime_iso (author_date c) = Some commit_date"
    "requests_get (GetCommit org repo_name (sha c)) w = (response, w1)"
    "status_code response = 200 \<Longrightarrow>
       stats_loop org cs
         (st\<lparr>commit_times := commit_times st @ [commit_date],
             total_additions := total_additions st + fst (stats_json response),
             total_deletions := total_deletions st + snd (stats_json response),
             repo_stats := bucket_add repo_name (fst (stats_json response))
                             (snd (stats_json response)) (repo_stats st),
             daily_stats := bucket_add (strftime_ymd commit_date) (fst (stats_json response))
                              (snd (stats_json response)) (daily_stats st)\<rparr>) w1
       = (Inr st', w')"
    "status_code response \<noteq> 200 \<Longrightarrow>
       stats_loop org cs (st\<lparr>commit_times := commit_times st @ [commit_date]\<rparr>) w1 = (Inr st', w')"
proof -
  from assms obtain rn where rn: "repo_name_of (url c) = Inr rn"
    by (cases "repo_name_of (url c)") auto
  from assms rn obtain cd where cd: "strptime_iso (author_date c) = Some cd"
    by (cases "strptime_iso (author_date c)") auto
  obtain resp w1 where rq: "requests_get (GetCommit org rn (sha c)) w = (resp, w1)"
    by (cases "requests_get (GetCommit org rn (sha c)) w")
  from assms rn cd rq show ?thesis
    by (intro that[of rn cd resp w1]) (simp_all add: Let_def)
qed

lemma lookups_step:
  assumes "repo_name_of (url c) = Inr repo_name"
      and "strptime_iso (author_date c) = Some commit_date"
      and "requests_get (GetCommit org repo_name (sha c)) w = (response, w1)"
  shows "lookups org (c # cs) w = (c, response) # lookups org cs w1"
  using assms by simp

lemma detailed_step:
  assumes "repo_name_of (url c) = Inr repo_name"
      and "strptime_iso (author_date c) = Some commit_date"
      and "requests_get (GetCommit org repo_name (sha c)) w = (response, w1)"
  shows "detailed org (c # cs) w =
           (if status_code response = 200 then (c, response) # detailed org cs w1
            else detailed org cs w1)"
  using assms by (simp add: detailed_def)

lemma stats_loop_sums:
  "stats_loop org cs st w = (Inr st', w') \<Longrightarrow>
     total_additions st' = total_additions st + sum_additions (detailed org cs w)
   \<and> total_deletions st' = total_deletions st + sum_deletions (detailed org cs w)
   \<and> bucket_sum additions (repo_stats st')
       = bucket_sum additions (repo_stats st) + sum_additions (detailed org cs w)
   \<and> bucket_sum deletions (repo_stats st')
       = bucket_sum deletions (repo_stats st) + sum_deletions (detailed org cs w)
   \<and> bucket_sum commits (repo_stats st')
       = bucket_sum commits (repo_stats st) + int (length (detailed org cs w))
   \<and> bucket_sum additions (daily_stats st')
       = bucket_sum additions (daily_stats st) + sum_additions (detailed org cs w)
   \<and> bucket_sum deletions (daily_stats st')
       = bucket_sum deletions (daily_stats st) + sum_deletions (detailed org cs w)
   \<and> bucket_sum commits (daily_stats st')
       = bucket_sum commits (daily_stats st) + int (length (detailed org cs w))"
proof (induction cs arbitrary: st w)
  case Nil
  then show ?case by (simp add: detailed_def sum_additions_def sum_deletions_def)
next
  case (Cons c cs)
  from Cons.prems show ?case
  proof (rule stats_loop_step)
    fix repo_name commit_date response w1
    assume rn: "repo_name_of (url c) = Inr repo_name"
      and cd: "strptime_iso (author_date c) = Some commit_date"
      and rq: "requests_get (GetCommit org repo_name (sha c)) w = (response, w1)"
      and ok: "status_code response = 200 \<Longrightarrow>
       stats_loop org cs
         (st\<lparr>commit_times := commit_times st @ [commit_date],
             total_additions := total_additions st + fst (stats_json response),
             total_deletions := total_deletions st + snd (stats_json response),
             repo_stats := bucket_add repo_name (fst (stats_json response))
                             (snd (stats_json response)) (repo_stats st),
             daily_stats := bucket_add (strftime_ymd commit_date) (fst (stats_json response))
                              (snd (stats_json response)) (daily_stats st)\<rparr>) w1
       = (Inr st', w')"
      and ko: "status_code response \<noteq> 200 \<Longrightarrow>
       stats_loop org cs (st\<lparr>commit_times := commit_times st @ [commit_date]\<rparr>) w1 = (Inr st', w')"
    note det = detailed_step[OF rn cd rq, of cs]
    show ?thesis
    proof (cases "status_code response = 200")
      case True
      from Cons.IH[OF ok[OF True]] True det show ?thesis
        by (simp add: bucket_sum_add sum_additions_def sum_deletions_def)
    next
      case False
      from Cons.IH[OF ko[OF False]] False det show ?thesis
        by simp
    qed
  qed
qed

lemma stats_loop_tally:
  "stats_loop org cs st w = (Inr st', w') \<Longrightarrow>
     (total_additions st', total_deletions st', repo_stats st', daily_stats st')
       = tally (detailed org cs w)
           (total_additions st, total_deletions st, repo_stats st, daily_stats st)
   \<and> map Some (commit_times st')
       = map Some (commit_times st) @ map (strptime_iso \<circ> author_date) cs"
proof (induction cs arbitrary: st w)
  case Nil
  then show ?case by (simp add: detailed_def)
next
  case (Cons c cs)
  from Cons.prems show ?case
  proof (rule stats_loop_step)
    fix repo_name commit_date response w1
    assume rn: "repo_name_of (url c) = Inr repo_name"
      and cd: "strptime_iso (author_date c) = Some commit_date"
      and rq: "requests_get (GetCommit org repo_name (sha c)) w = (response, w1)"
      and ok: "status_code response = 200 \<Longrightarrow>
       stats_loop org cs
         (st\<lparr>commit_times := commit_times st @ [commit_date],
             total_additions := total_additions st + fst (stats_json response),
             total_deletions := total_deletions st + snd (stats_json response),
             repo_stats := bucket_add repo_name (fst (stats_json response))
                             (snd (stats_json response)) (repo_stats st),
             daily_stats := bucket_add (strftime_ymd commit_date) (fst (stats_json response))
                              (snd (stats_json response)) (daily_stats st)\<rparr>) w1
       = (Inr st', w')"
      and ko: "status_code response \<noteq> 200 \<Longrightarrow>
       stats_loop org cs (st\<lparr>commit_times := commit_times st @ [commit_date]\<rparr>) w1 = (Inr st', w')"
    note det = detailed_step[OF rn cd rq, of cs]
    show ?thesis
    proof (cases "status_code response = 200")
      case True
      from Cons.IH[OF ok[OF True]] True det rn cd show ?thesis
        by simp
    next
      case False
      from Cons.IH[OF ko[OF False]] False det cd show ?thesis
        by simp
    qed
  qed
qed

lemma aggregate_Inr:
  assumes "aggregate org cs w = (Inr (ta, td, snap), w')"
  obtains st where "stats_loop org cs initial_stats w = (Inr st, w')"
    "ta = total_additions st" "td = total_deletions st"
    "repo_stats snap = repo_stats st" "daily_stats snap = daily_stats st"
    "commit_times snap = commit_times st"
  using assms
  by (auto simp: aggregate_def split: prod.splits sum.splits)

lemma get_commit_stats_Inr:
  assumes "get_commit_stats org username y m w = Some (Inr res, w')"
  obtains start_date end_date cs w1 where
    "get_user_commits org username start_date end_date w = Some (Inr cs, w1)"
    "aggregate org cs w1 = (Inr res, w')"
  using assms
  by (auto simp: get_commit_stats_def split: option.splits if_splits prod.splits sum.splits)

lemmas fetch_defs = get_commit_stats_def get_user_commits_def get_org_repos_def
  org_repos_loop.simps commits_loop.simps

lemma run_scenario:
  "map_option fst (get_commit_stats ''acme'' ''dev'' 2024 3 scenario_world)
     = Some (Inr (16, 7, scenario_snapshot))"
  by (simp add: fetch_defs run_defs date_defs scenario_world_def scenario_snapshot_def
        stamp_def bkt_def)

lemma run_partial:
  "map_option fst (get_commit_stats ''acme'' ''dev'' 2024 3 partial_world)
     = Some (Inr (11, 2, partial_snapshot))"
  by (simp add: fetch_defs run_defs date_defs partial_world_def partial_snapshot_def
        stamp_def bkt_def)

text \<open>
  Claim C1. Conservation: whenever \<^verbatim>\<open>get_commit_stats\<close> returns, the total additions
  equal the sum of the additions of the successfully detailed commits, the sum of the
  additions of all repository buckets and the sum of the additions of all day buckets;
  the same holds for the deletions; and the commit counts of the repository buckets, and
  of the day buckets, sum to the number of successfully detailed commits. The detail
  values need not even be non-negative.
\<close>

theorem conservation:
  assumes "get_commit_stats org username y m w = Some (Inr (ta, td, snap), w')"
  shows "ta = bucket_sum additions (repo_stats snap)
       \<and> ta = bucket_sum additions (daily_stats snap)
       \<and> td = bucket_sum deletions (repo_stats snap)
       \<and> td = bucket_sum deletions (daily_stats snap)
       \<and> bucket_sum commits (repo_stats snap) = bucket_sum commits (daily_stats snap)
       \<and> (\<exists>start_date end_date cs w1.
             get_user_commits org username start_date end_date w = Some (Inr cs, w1)
           \<and> ta = sum_additions (detailed org cs w1)
           \<and> td = sum_deletions (detailed org cs w1)
           \<and> bucket_sum commits (repo_stats snap) = int (length (detailed org cs w1)))"
proof -
  from assms obtain start_date end_date cs w1 where
    guc: "get_user_commits org username start_date end_date w = Some (Inr cs, w1)"
    and agg: "aggregate org cs w1 = (Inr (ta, td, snap), w')"
    by (rule get_commit_stats_Inr)
  from agg obtain st where st: "stats_loop org cs initial_stats w1 = (Inr st, w')"
    and eqs: "ta = total_additions st" "td = total_deletions st"
      "repo_stats snap = repo_stats st" "daily_stats snap = daily_stats st"
    by (rule aggregate_Inr)
  have zero: "total_additions initial_stats = 0" "total_deletions initial_stats = 0"
    "bucket_sum additions (repo_stats initial_stats) = 0"
    "bucket_sum deletions (repo_stats initial_stats) = 0"
    "bucket_sum commits (repo_stats initial_stats) = 0"
    "bucket_sum additions (daily_stats initial_stats) = 0"
    "bucket_sum deletions (daily_stats initial_stats) = 0"
    "bucket_sum commits (daily_stats initial_stats) = 0"
    by (simp_all add: initial_stats_def bucket_sum_def)
  from stats_loop_sums[OF st] zero eqs
  have sums: "ta = sum_additions (detailed org cs w1)" "td = sum_deletions (detailed org cs w1)"
    "bucket_sum additions (repo_stats snap) = sum_additions (detailed org cs w1)"
    "bucket_sum deletions (repo_stats snap) = sum_deletions (detailed org cs w1)"
    "bucket_sum commits (repo_stats snap) = int (length (detailed org cs w1))"
    "bucket_sum additions (daily_stats snap) = sum_additions (detailed org cs w1)"
    "bucket_sum deletions (daily_stats snap) = sum_deletions (detailed org cs w1)"
    "bucket_sum commits (daily_stats snap) = int (length (detailed org cs w1))"
    by simp_all
  with guc show ?thesis by auto
qed


theorem conservation_witness:
  "map_option fst (get_commit_stats ''acme'' ''dev'' 2024 3 scenario_world)
     = Some (Inr (16, 7, scenario_snapshot))
   \<and> bucket_sum additions (repo_stats scenario_snapshot) = 16
   \<and> bucket_sum additions (daily_stats scenario_snapshot) = 16
   \<and> bucket_sum deletions (repo_stats scenario_snapshot) = 7
   \<and> bucket_sum deletions (daily_stats scenario_snapshot) = 7
   \<and> bucket_sum commits (repo_stats scenario_snapshot)
       = bucket_sum commits (daily_stats scenario_snapshot)"
proof -
  from run_scenario obtain w' where
    "get_commit_stats ''acme'' ''dev'' 2024 3 scenario_world
       = Some (Inr (16, 7, scenario_snapshot), w')"
    by auto
  from conservation[OF this] run_scenario show ?thesis by simp
qed

text \<open>
  Claim C3, as stated, fails on the timestamps: the detail of the second commit is not
  fetched (only the first and the third are detailed), it adds nothing to the totals and
  buckets, yet its timestamp 10:01:00 is in the timestamp sequence.
\<close>

theorem failed_lookup_timestamp_counterexample:
  "fst (aggregate ''acme'' scenario_commits partial_world) = Inr (11, 2, partial_snapshot)
   \<and> map (sha \<circ> fst) (detailed ''acme'' scenario_commits partial_world) = [''a1'', ''a3'']
   \<and> map (strptime_iso \<circ> author_date) scenario_commits
       = [Some (stamp 2024 3 2 10 0 0), Some (stamp 2024 3 2 10 1 0), Some (stamp 2024 3 2 10 3 0)]
   \<and> commit_times partial_snapshot
       = [stamp 2024 3 2 10 0 0, stamp 2024 3 2 10 1 0, stamp 2024 3 2 10 3 0]"
  by (simp add: run_defs date_defs partial_world_def partial_snapshot_def stamp_def bkt_def
        detailed_def)

text \<open>
  Claim C3, amended. A commit whose detail lookup fails contributes to no total and to no
  repository or day bucket: the totals and the buckets that \<^verbatim>\<open>get_commit_stats\<close> returns
  are those that the successfully detailed commits alone produce. The timestamp sequence
  holds the authored timestamp of every collected commit, detailed or not, in processing
  order.
\<close>

theorem failed_lookup_contribution:
  assumes "get_commit_stats org username y m w = Some (Inr (ta, td, snap), w')"
  shows "\<exists>start_date end_date cs w1.
           get_user_commits org username start_date end_date w = Some (Inr cs, w1)
         \<and> (ta, td, repo_stats snap, daily_stats snap) = tally (detailed org cs w1) (0, 0, [], [])
         \<and> map Some (commit_times snap) = map (strptime_iso \<circ> author_date) cs"
proof -
  from assms obtain start_date end_date cs w1 where
    guc: "get_user_commits org username start_date end_date w = Some (Inr cs, w1)"
    and agg: "aggregate org cs w1 = (Inr (ta, td, snap), w')"
    by (rule get_commit_stats_Inr)
  from agg obtain st where st: "stats_loop org cs initial_stats w1 = (Inr st, w')"
    and eqs: "ta = total_additions st" "td = total_deletions st"
      "repo_stats snap = repo_stats st" "daily_stats snap = daily_stats st"
      "commit_times snap = commit_times st"
    by (rule aggregate_Inr)
  from stats_loop_tally[OF st] eqs
  have "(ta, td, repo_stats snap, daily_stats snap) = tally (detailed org cs w1) (0, 0, [], [])"
    and "map Some (commit_times snap) = map (strptime_iso \<circ> author_date) cs"
    by (simp_all add: initial_stats_def)
  with guc show ?thesis by blast
qed

theorem failed_lookup_contribution_witness:
  "map_option fst (get_commit_stats ''acme'' ''dev'' 2024 3 partial_world)
     = Some (Inr (11, 2, partial_snapshot))
   \<and> (\<exists>start_date end_date cs w1.
         get_user_commits ''acme'' ''dev'' start_date end_date partial_world = Some (Inr cs, w1)
       \<and> (11, 2, repo_stats partial_snapshot, daily_stats partial_snapshot)
           = tally (detailed ''acme'' cs w1) (0, 0, [], [])
       \<and> map Some (commit_times partial_snapshot) = map (strptime_iso \<circ> author_date) cs)"
proof -
  from run_partial obtain w' where
    "get_commit_stats ''acme'' ''dev'' 2024 3 partial_world
       = Some (Inr (11, 2, partial_snapshot), w')"
    by auto
  from failed_lookup_contribution[OF this] run_partial show ?thesis by simp
qed

section \<open>The listings\<close>

lemma served_list_append:
  "served_list srv n (xs @ ys) = served_list srv n xs @ served_list srv (n + length xs) ys"
  by (induction xs arbitrary: n) auto

lemma served_list_repos:
  "list_all is_repos_request rs \<Longrightarrow> served_list srv n rs = []"
  by (induction rs arbitrary: n) (auto simp: is_repos_request_def split: request.splits)

lemma is_repos_request_GetOrgRepos: "is_repos_request (GetOrgRepos org page)"
  by (simp add: is_repos_request_def)

lemma is_commits_request_GetCommits:
  "is_commits_request org username since until (GetCommits org repo username since until page)"
  by (simp add: is_commits_request_def)

lemma org_repos_loop_log:
  assumes "org_repos_loop org page repos w = Some y"
  shows "server (snd y) = server w
       \<and> (\<exists>new. log (snd y) = log w @ GetOrgRepos org page # new \<and> list_all is_repos_request new)
       \<and> (fst y = Inl Exception \<or> (\<exists>names. fst y = Inr names))"
proof (induction rule: org_repos_loop.raw_induct[OF _ assms])
  case (1 loop org page repos w y)
  let ?r = "server w (length (log w)) (GetOrgRepos org page)"
  let ?w1 = "w\<lparr>log := log w @ [GetOrgRepos org page]\<rparr>"
  show ?case
  proof (cases "status_code ?r \<noteq> 200 \<or> repos_json ?r = []")
    case True
    with 1(2) show ?thesis by (auto simp: requests_get_def split: if_splits)
  next
    case False
    with 1(2) have "loop org (page + 1) (repos @ repos_json ?r) ?w1 = Some y"
      by (auto simp: requests_get_def split: if_splits)
    from 1(1)[OF this] show ?thesis by (auto simp: is_repos_request_GetOrgRepos)
  qed
qed

lemma commits_loop_log:
  assumes "commits_loop org repo username since until page acc w = Some y"
  shows "server (snd y) = server w
       \<and> (\<exists>new. log (snd y) = log w @ new
                \<and> list_all (is_commits_request org username since until) new
                \<and> fst y = acc @ served_list (server w) (length (log w)) new)"
proof (induction rule: commits_loop.raw_induct[OF _ assms])
  case (1 loop org repo username since until page acc w y)
  let ?q = "GetCommits org repo username since until page"
  let ?r = "server w (length (log w)) ?q"
  let ?w1 = "w\<lparr>log := log w @ [?q]\<rparr>"
  show ?case
  proof (cases "status_code ?r \<noteq> 200 \<or> commits_json ?r = []")
    case True
    with 1(2) show ?thesis
      by (auto simp: requests_get_def is_commits_request_GetCommits split: if_splits)
  next
    case False
    with 1(2) have "loop org repo username since until (page + 1) (acc @ commits_json ?r) ?w1 = Some y"
      by (auto simp: requests_get_def split: if_splits)
    from 1(1)[OF this] obtain new where
      new: "server (snd y) = server w" "log (snd y) = log w @ ?q # new"
           "list_all (is_commits_request org username since until) new"
           "fst y = (acc @ commits_json ?r) @ served_list (server w) (Suc (length (log w))) new"
      by auto
    from new False show ?thesis
      by (intro conjI exI[of _ "?q # new"]) (auto simp: is_commits_request_GetCommits)
  qed
qed

lemma repos_loop_log:
  "repos_loop org username since until repos acc w = Some y \<Longrightarrow>
     server (snd y) = server w
   \<and> (\<exists>new. log (snd y) = log w @ new
            \<and> list_all (is_commits_request org username since until) new
            \<and> fst y = acc @ served_list (server w) (length (log w)) new)"
proof (induction repos arbitrary: acc w)
  case Nil
  then show ?case by auto
next
  case (Cons repo repos)
  from Cons.prems obtain acc1 w1 where
    one: "commits_loop org repo username since until 1 acc w = Some (acc1, w1)"
    and rest: "repos_loop org username since until repos acc1 w1 = Some y"
    by (auto split: option.splits)
  from commits_loop_log[OF one] obtain new1 where
    n1: "server w1 = server w" "log w1 = log w @ new1"
        "list_all (is_commits_request org username since until) new1"
        "acc1 = acc @ served_list (server w) (length (log w)) new1"
    by auto
  from Cons.IH[OF rest] obtain new2 where
    n2: "server (snd y) = server w1" "log (snd y) = log w1 @ new2"
        "list_all (is_commits_request org username since until) new2"
        "fst y = acc1 @ served_list (server w1) (length (log w1)) new2"
    by auto
  from n1 n2 show ?case
    by (intro conjI exI[of _ "new1 @ new2"]) (auto simp: served_list_append)
qed

lemma get_user_commits_log:
  assumes "get_user_commits org username since until w = Some (res, w')"
  shows "\<exists>new. log w' = log w @ GetOrgRepos org 1 # new
            \<and> list_all (\<lambda>r. is_repos_request r \<or> is_commits_request org username since until r) new
            \<and> (res = Inl Exception \<or> res = Inr (served w w'))"
proof -
  from assms obtain y where y: "get_org_repos org w = Some y"
    by (auto simp: get_user_commits_def split: option.splits)
  then have loop: "org_repos_loop org 1 [] w = Some y" by (simp add: get_org_repos_def)
  from org_repos_loop_log[OF loop] obtain new0 where
    n0: "server (snd y) = server w" "log (snd y) = log w @ GetOrgRepos org 1 # new0"
        "list_all is_repos_request new0"
        "fst y = Inl Exception \<or> (\<exists>names. fst y = Inr names)"
    by auto
  show ?thesis
  proof (cases "fst y")
    case (Inl e)
    with n0(4) have e: "fst y = Inl Exception" by auto
    with assms y have "res = Inl Exception" "w' = snd y"
      by (cases y; auto simp: get_user_commits_def)+
    with n0 show ?thesis
      by (intro exI[of _ new0]) (auto simp: list_all_iff)
  next
    case (Inr names)
    with assms y obtain z where z: "repos_loop org username since until names [] (snd y) = Some z"
      and res: "res = Inr (fst z)" "w' = snd z"
      by (cases y; auto simp: get_user_commits_def split: option.splits)
    from repos_loop_log[OF z] obtain new1 where
      n1: "server (snd z) = server (snd y)" "log (snd z) = log (snd y) @ new1"
          "list_all (is_commits_request org username since until) new1"
          "fst z = served_list (server (snd y)) (length (log (snd y))) new1"
      by auto
    have "served w w' = served_list (server w) (length (log w)) (GetOrgRepos org 1 # new0 @ new1)"
      using n0 n1 res by (simp add: served_def)
    also have "\<dots> = served_list (server w) (length (log w)) ((GetOrgRepos org 1 # new0) @ new1)"
      by simp
    also have "\<dots> = served_list (server w) (length (log w) + length (GetOrgRepos org 1 # new0)) new1"
    proof -
      from n0(3) have "list_all is_repos_request (GetOrgRepos org 1 # new0)"
        by (simp add: is_repos_request_GetOrgRepos)
      then have "served_list (server w) (length (log w)) (GetOrgRepos org 1 # new0) = []"
        by (rule served_list_repos)
      then show ?thesis by (simp only: served_list_append append_Nil)
    qed
    also have "\<dots> = fst z" using n0 n1 by simp
    finally have "res = Inr (served w w')" using res by simp
    with n0 n1 res show ?thesis
      by (intro exI[of _ "new0 @ new1"]) (auto simp: list_all_iff)
  qed
qed

lemma month_cases:
  fixes m :: int
  assumes "1 \<le> m" "m \<le> 12"
  shows "m = 1 \<or> m = 2 \<or> m = 3 \<or> m = 4 \<or> m = 5 \<or> m = 6 \<or> m = 7 \<or> m = 8 \<or> m = 9 \<or> m = 10
       \<or> m = 11 \<or> m = 12"
  using assms by arith

lemma days_in_month_positive:
  assumes "1 \<le> m" "m \<le> 12"
  shows "1 \<le> days_in_month y m"
proof -
  from month_cases[OF assms] show ?thesis
    by (elim disjE) (simp_all add: days_in_month_def)
qed

lemma first_of_month:
  "datetime_new y m 1 0 0 0 =
     (if 1 \<le> y \<and> y \<le> 9999 \<and> 1 \<le> m \<and> m \<le> 12 then Some (stamp y m 1 0 0 0) else None)"
  using days_in_month_positive[of m y] by (simp add: datetime_new_def stamp_def)

lemma get_commit_stats_range:
  "get_commit_stats org username y m w =
     (if valid_month y m
      then (case get_user_commits org username (stamp y m 1 0 0 0)
                   (if m = 12 then stamp (y + 1) 1 1 0 0 0 else stamp y (m + 1) 1 0 0 0) w of
              None \<Rightarrow> None
            | Some (Inl e, w1) \<Rightarrow> Some (Inl e, w1)
            | Some (Inr cs, w1) \<Rightarrow> Some (aggregate org cs w1))
      else Some (Inl ValueError, w))"
proof (cases "valid_month y m")
  case True
  then have s: "datetime_new y m 1 0 0 0 = Some (stamp y m 1 0 0 0)"
    by (simp add: first_of_month valid_month_def)
  from True have e: "(if m = 12 then datetime_new (y + 1) 1 1 0 0 0 else datetime_new y (m + 1) 1 0 0 0)
      = Some (if m = 12 then stamp (y + 1) 1 1 0 0 0 else stamp y (m + 1) 1 0 0 0)"
    by (simp add: first_of_month valid_month_def)
  show ?thesis
    unfolding get_commit_stats_def s e using True by simp
next
  case False
  show ?thesis
  proof (cases "datetime_new y m 1 0 0 0")
    case None
    with False show ?thesis by (simp add: get_commit_stats_def)
  next
    case (Some a)
    then have r: "1 \<le> y" "y \<le> 9999" "1 \<le> m" "m \<le> 12"
      by (simp_all add: first_of_month split: if_splits)
    with False have "y = 9999" "m = 12" by (auto simp: valid_month_def)
    then have "(if m = 12 then datetime_new (y + 1) 1 1 0 0 0 else datetime_new y (m + 1) 1 0 0 0) = None"
      by (simp add: first_of_month)
    with Some False show ?thesis by (simp add: get_commit_stats_def)
  qed
qed

lemma div_step:
  fixes y k :: int
  assumes "0 < k"
  shows "y div k = (y - 1) div k + (if y mod k = 0 then 1 else 0)"
proof (cases "y mod k = 0")
  case True
  have "y - 1 = k * (y div k - 1) + (k - 1)"
    using True by (simp add: algebra_simps) (metis mult_div_mod_eq add.right_neutral)
  then have "(y - 1) div k = y div k - 1"
    using assms by (intro int_div_pos_eq[where r = "k - 1"]) simp_all
  with True show ?thesis by simp
next
  case False
  have r: "0 \<le> y mod k" "y mod k < k" using assms by simp_all
  with False have r1: "0 \<le> y mod k - 1" by linarith
  have "y - 1 = k * (y div k) + (y mod k - 1)" by simp
  then have "(y - 1) div k = y div k"
    using r r1 by (intro int_div_pos_eq[where r = "y mod k - 1"]) simp_all
  with False show ?thesis by simp
qed

lemma days_before_year_Suc:
  "days_before_year (y + 1) = days_before_year y + 365 + (if is_leap y then 1 else 0)"
proof -
  define q4 q100 q400 where "q4 = (y - 1) div 4" and "q100 = (y - 1) div 100"
    and "q400 = (y - 1) div 400"
  define i4 i100 i400 :: int where "i4 = (if y mod 4 = 0 then 1 else 0)"
    and "i100 = (if y mod 100 = 0 then 1 else 0)" and "i400 = (if y mod 400 = 0 then 1 else 0)"
  have a: "y div 4 = q4 + i4" unfolding q4_def i4_def by (rule div_step) simp
  have b: "y div 100 = q100 + i100" unfolding q100_def i100_def by (rule div_step) simp
  have c: "y div 400 = q400 + i400" unfolding q400_def i400_def by (rule div_step) simp
  have d: "y mod 100 = 0" if "y mod 400 = 0"
  proof -
    have "(100::int) dvd 400" by simp
    then have "y mod 400 mod 100 = y mod 100" by (rule mod_mod_cancel)
    with that show ?thesis by simp
  qed
  have e: "y mod 4 = 0" if "y mod 100 = 0"
  proof -
    have "(4::int) dvd 100" by simp
    then have "y mod 100 mod 4 = y mod 4" by (rule mod_mod_cancel)
    with that show ?thesis by simp
  qed
  have leap: "i4 - i100 + i400 = (if is_leap y then 1 else 0)"
  proof (cases "y mod 400 = 0")
    case True
    with d e show ?thesis by (simp add: i4_def i100_def i400_def is_leap_def)
  next
    case n400: False
    show ?thesis
    proof (cases "y mod 100 = 0")
      case True
      with n400 e show ?thesis by (simp add: i4_def i100_def i400_def is_leap_def)
    next
      case False
      with n400 show ?thesis by (simp add: i4_def i100_def i400_def is_leap_def)
    qed
  qed
  have next_year: "days_before_year (y + 1) = y * 365 + y div 4 - y div 100 + y div 400"
    unfolding days_before_year_def Let_def by simp
  have this_year: "days_before_year y = (y - 1) * 365 + q4 - q100 + q400"
    unfolding days_before_year_def Let_def q4_def q100_def q400_def by (rule refl)
  have "days_before_year (y + 1) = days_before_year y + 365 + (i4 - i100 + i400)"
    unfolding next_year this_year a b c by (simp add: algebra_simps)
  with leap show ?thesis by (simp only:)
qed

lemma month_range_ordered:
  assumes "valid_month y m"
  shows "seconds_of (stamp y m 1 0 0 0)
           < seconds_of (if m = 12 then stamp (y + 1) 1 1 0 0 0 else stamp y (m + 1) 1 0 0 0)"
proof -
  have ord: "toordinal (stamp y m 1 0 0 0)
               < toordinal (if m = 12 then stamp (y + 1) 1 1 0 0 0 else stamp y (m + 1) 1 0 0 0)"
  proof (cases "m = 12")
    case True
    then show ?thesis
      by (simp add: toordinal_def stamp_def days_before_month_def days_before_year_Suc)
  next
    case False
    with assms have "1 \<le> m" "m \<le> 11" by (simp_all add: valid_month_def)
    then have "m = 1 \<or> m = 2 \<or> m = 3 \<or> m = 4 \<or> m = 5 \<or> m = 6 \<or> m = 7 \<or> m = 8 \<or> m = 9
             \<or> m = 10 \<or> m = 11"
      by arith
    then show ?thesis
      by (elim disjE) (simp_all add: toordinal_def stamp_def days_before_month_def)
  qed
  then show ?thesis
    by (simp add: seconds_of_def stamp_def split: if_splits)
qed

lemma upt_page_Cons: "[page..<page + Suc n] = page # [Suc page..<Suc page + n]"
  by (simp add: upt_conv_Cons)

lemma repo_requests_Suc:
  "repo_requests org page (Suc n) = GetOrgRepos org page # repo_requests org (Suc page) n"
  unfolding repo_requests_def by (simp only: upt_page_Cons list.map)

lemma commit_requests_Suc:
  "commit_requests org username since until repo page (Suc n)
     = GetCommits org repo username since until page
         # commit_requests org username since until repo (Suc page) n"
  unfolding commit_requests_def by (simp only: upt_page_Cons list.map)

lemma repo_requests_0 [simp]: "repo_requests org page 0 = []"
  by (simp add: repo_requests_def)

lemma commit_requests_0 [simp]: "commit_requests org username since until repo page 0 = []"
  by (simp add: commit_requests_def)

lemma length_commit_requests [simp]:
  "length (commit_requests org username since until repo page n) = n"
  by (simp add: commit_requests_def)

lemma length_repo_requests [simp]: "length (repo_requests org page n) = n"
  by (simp add: repo_requests_def)

lemma org_repos_loop_trace:
  assumes "org_repos_loop org page repos w = Some y"
  shows "server (snd y) = server w
       \<and> (\<exists>j. log (snd y) = log w @ repo_requests org page (Suc j)
              \<and> (fst y = Inl Exception
                  \<or> (fst y = Inr (repos @ listed_list (server w) (length (log w))
                                        (repo_requests org page (Suc j)))
                      \<and> repo_pages_ok (server w) (length (log w))
                            (repo_requests org page (Suc j)))))"
proof (induction rule: org_repos_loop.raw_induct[OF _ assms])
  case (1 loop org page repos w y)
  let ?q = "GetOrgRepos org page"
  let ?r = "server w (length (log w)) ?q"
  let ?w1 = "w\<lparr>log := log w @ [?q]\<rparr>"
  show ?case
  proof (cases "status_code ?r \<noteq> 200 \<or> repos_json ?r = []")
    case True
    with 1(2) have "server (snd y) = server w" "log (snd y) = log w @ repo_requests org page (Suc 0)"
      "fst y = Inl Exception
         \<or> (fst y = Inr (repos @ listed_list (server w) (length (log w)) (repo_requests org page (Suc 0)))
            \<and> repo_pages_ok (server w) (length (log w)) (repo_requests org page (Suc 0)))"
      by (auto simp: requests_get_def repo_requests_Suc split: if_splits)
    then show ?thesis by blast
  next
    case False
    with 1(2) have "loop org (page + 1) (repos @ repos_json ?r) ?w1 = Some y"
      by (auto simp: requests_get_def split: if_splits)
    from 1(1)[OF this] obtain j where
      j: "server (snd y) = server w"
         "log (snd y) = log w @ ?q # repo_requests org (Suc page) (Suc j)"
         "fst y = Inl Exception
          \<or> (fst y = Inr ((repos @ repos_json ?r) @ listed_list (server w) (Suc (length (log w)))
                                        (repo_requests org (Suc page) (Suc j)))
              \<and> repo_pages_ok (server w) (Suc (length (log w))) (repo_requests org (Suc page) (Suc j)))"
      by auto
    have shape: "repo_requests org page (Suc (Suc j)) = ?q # repo_requests org (Suc page) (Suc j)"
      by (rule repo_requests_Suc)
    have nonempty: "repo_requests org (Suc page) (Suc j)
        = GetOrgRepos org (Suc page) # repo_requests org (Suc (Suc page)) j"
      by (rule repo_requests_Suc)
    from j False have "server (snd y) = server w"
      "log (snd y) = log w @ repo_requests org page (Suc (Suc j))"
      "fst y = Inl Exception
         \<or> (fst y = Inr (repos @ listed_list (server w) (length (log w)) (repo_requests org page (Suc (Suc j))))
            \<and> repo_pages_ok (server w) (length (log w)) (repo_requests org page (Suc (Suc j))))"
      unfolding shape by (auto simp: nonempty)
    then show ?thesis by blast
  qed
qed

lemma commits_loop_trace:
  assumes "commits_loop org repo username since until page acc w = Some y"
  shows "server (snd y) = server w
       \<and> (\<exists>p. log (snd y) = log w @ commit_requests org username since until repo page (Suc p)
              \<and> commit_pages_ok (server w) (length (log w))
                    (commit_requests org username since until repo page (Suc p))
              \<and> fst y = acc @ served_list (server w) (length (log w))
                                 (commit_requests org username since until repo page (Suc p)))"
proof (induction rule: commits_loop.raw_induct[OF _ assms])
  case (1 loop org repo username since until page acc w y)
  let ?q = "GetCommits org repo username since until page"
  let ?r = "server w (length (log w)) ?q"
  let ?w1 = "w\<lparr>log := log w @ [?q]\<rparr>"
  show ?case
  proof (cases "status_code ?r \<noteq> 200 \<or> commits_json ?r = []")
    case True
    with 1(2) have "server (snd y) = server w"
      "log (snd y) = log w @ commit_requests org username since until repo page (Suc 0)"
      "commit_pages_ok (server w) (length (log w))
         (commit_requests org username since until repo page (Suc 0))"
      "fst y = acc @ served_list (server w) (length (log w))
                 (commit_requests org username since until repo page (Suc 0))"
      by (auto simp: requests_get_def commit_requests_Suc has_more_def split: if_splits)
    then show ?thesis by blast
  next
    case False
    with 1(2) have "loop org repo username since until (page + 1) (acc @ commits_json ?r) ?w1 = Some y"
      by (auto simp: requests_get_def split: if_splits)
    from 1(1)[OF this] obtain p where
      p: "server (snd y) = server w"
         "log (snd y) = log w @ ?q # commit_requests org username since until repo (Suc page) (Suc p)"
         "commit_pages_ok (server w) (Suc (length (log w)))
            (commit_requests org username since until repo (Suc page) (Suc p))"
         "fst y = (acc @ commits_json ?r) @ served_list (server w) (Suc (length (log w)))
                    (commit_requests org username since until repo (Suc page) (Suc p))"
      by auto
    have shape: "commit_requests org username since until repo page (Suc (Suc p))
        = ?q # commit_requests org username since until repo (Suc page) (Suc p)"
      by (rule commit_requests_Suc)
    have nonempty: "commit_requests org username since until repo (Suc page) (Suc p)
        = GetCommits org repo username since until (Suc page)
            # commit_requests org username since until repo (Suc (Suc page)) p"
      by (rule commit_requests_Suc)
    from p False have "server (snd y) = server w"
      "log (snd y) = log w @ commit_requests org username since until repo page (Suc (Suc p))"
      "commit_pages_ok (server w) (length (log w))
         (commit_requests org username since until repo page (Suc (Suc p)))"
      "fst y = acc @ served_list (server w) (length (log w))
                 (commit_requests org username since until repo page (Suc (Suc p)))"
      unfolding shape by (auto simp: nonempty has_more_def)
    then show ?thesis by blast
  qed
qed

lemma repos_loop_trace:
  "repos_loop org username since until repos acc w = Some y \<Longrightarrow>
     server (snd y) = server w
   \<and> (\<exists>ps. length ps = length repos
          \<and> log (snd y) = log w @ collection_requests org username since until (zip repos ps)
          \<and> collection_ok (server w) (length (log w)) org username since until (zip repos ps)
          \<and> fst y = acc @ served_list (server w) (length (log w))
                             (collection_requests org username since until (zip repos ps)))"
proof (induction repos arbitrary: acc w)
  case Nil
  then show ?case by (auto simp: collection_requests_def)
next
  case (Cons repo repos)
  from Cons.prems obtain acc1 w1 where
    one: "commits_loop org repo username since until 1 acc w = Some (acc1, w1)"
    and rest: "repos_loop org username since until repos acc1 w1 = Some y"
    by (auto split: option.splits)
  let ?n = "length (log w)"
  from commits_loop_trace[OF one] obtain p where
    p: "server w1 = server w"
       "log w1 = log w @ commit_requests org username since until repo 1 (Suc p)"
       "commit_pages_ok (server w) ?n (commit_requests org username since until repo 1 (Suc p))"
       "acc1 = acc @ served_list (server w) ?n (commit_requests org username since until repo 1 (Suc p))"
    by auto
  from Cons.IH[OF rest] obtain ps where
    ps: "server (snd y) = server w1" "length ps = length repos"
        "log (snd y) = log w1 @ collection_requests org username since until (zip repos ps)"
        "collection_ok (server w1) (length (log w1)) org username since until (zip repos ps)"
        "fst y = acc1 @ served_list (server w1) (length (log w1))
                          (collection_requests org username since until (zip repos ps))"
    by auto
  have len1: "length (log w1) = ?n + Suc p" using p(2) by simp
  have reqs: "collection_requests org username since until (zip (repo # repos) (Suc p # ps))
      = commit_requests org username since until repo 1 (Suc p)
          @ collection_requests org username since until (zip repos ps)"
    by (simp add: collection_requests_def)
  have "server (snd y) = server w" using p ps by simp
  moreover have "length (Suc p # ps) = length (repo # repos)" using ps by simp
  moreover have "log (snd y) = log w @ collection_requests org username since until
                                          (zip (repo # repos) (Suc p # ps))"
    unfolding reqs using p ps by simp
  moreover have "collection_ok (server w) ?n org username since until
                    (zip (repo # repos) (Suc p # ps))"
    using p(1,3) ps(4) len1 by simp
  moreover have "fst y = acc @ served_list (server w) ?n
       (collection_requests org username since until (zip (repo # repos) (Suc p # ps)))"
    unfolding reqs using p(1,4) ps(5) len1 by (simp add: served_list_append)
  ultimately show ?case by blast
qed

lemma run_inclusive_february:
  "map_option fst (get_user_commits ''acme'' ''dev'' (stamp 2024 2 1 0 0 0) (stamp 2024 3 1 0 0 0)
      inclusive_world) = Some (Inr [boundary_commit])"
  by (simp add: fetch_defs requests_get_def inclusive_world_def ok_def stamp_def
        seconds_of_def toordinal_def days_before_year_def days_before_month_def is_leap_def)

lemma run_inclusive_march:
  "map_option fst (get_user_commits ''acme'' ''dev'' (stamp 2024 3 1 0 0 0) (stamp 2024 4 1 0 0 0)
      inclusive_world) = Some (Inr [boundary_commit])"
  by (simp add: fetch_defs requests_get_def inclusive_world_def ok_def stamp_def
        seconds_of_def toordinal_def days_before_year_def days_before_month_def is_leap_def)

lemma run_inclusive_february_log:
  "map_option (log \<circ> snd)
     (get_user_commits ''acme'' ''dev'' (stamp 2024 2 1 0 0 0) (stamp 2024 3 1 0 0 0) inclusive_world)
   = Some (repo_requests ''acme'' 1 2
           @ collection_requests ''acme'' ''dev'' (stamp 2024 2 1 0 0 0) (stamp 2024 3 1 0 0 0)
               [(''A'', 2)])"
  by (simp add: fetch_defs requests_get_def inclusive_world_def ok_def stamp_def
        seconds_of_def toordinal_def days_before_year_def days_before_month_def is_leap_def
        repo_requests_def collection_requests_def commit_requests_def upt_rec)

lemma run_reversed_range:
  "map_option fst (get_user_commits [] [] (stamp 2024 3 1 0 0 0) (stamp 2024 2 1 0 0 0)
      scenario_world) = Some (Inr scenario_commits)"
  "map_option (take 1 \<circ> log \<circ> snd)
     (get_user_commits [] [] (stamp 2024 3 1 0 0 0) (stamp 2024 2 1 0 0 0) scenario_world)
     = Some [GetOrgRepos [] 1]"
  by (simp_all add: fetch_defs requests_get_def scenario_world_def listing_def ok_def
        scenario_commits_def commit_of_def)

text \<open>
  Claim C2, as stated, fails: the program sends \<^verbatim>\<open>until\<close> upstream and filters nothing
  itself. With an upstream whose \<^verbatim>\<open>until\<close> is inclusive, the commit authored at
  2024-03-01T00:00:00Z is collected for February (whose \<^verbatim>\<open>until\<close> is that instant) and
  again for March.
\<close>

theorem until_exclusivity_counterexample:
  "map_option fst (get_user_commits ''acme'' ''dev'' (stamp 2024 2 1 0 0 0) (stamp 2024 3 1 0 0 0)
      inclusive_world) = Some (Inr [boundary_commit])
   \<and> strptime_iso (author_date boundary_commit) = Some (stamp 2024 3 1 0 0 0)
   \<and> map_option fst (get_user_commits ''acme'' ''dev'' (stamp 2024 3 1 0 0 0) (stamp 2024 4 1 0 0 0)
      inclusive_world) = Some (Inr [boundary_commit])"
proof -
  have "strptime_iso (author_date boundary_commit) = Some (stamp 2024 3 1 0 0 0)"
    by (simp add: boundary_commit_def commit_of_def strptime_iso_def date_defs stamp_def)
  with run_inclusive_february run_inclusive_march show ?thesis by simp
qed

text \<open>
  Claim C2, amended. \<^verbatim>\<open>get_user_commits\<close> applies no filter of its own. A run that returns
  made exactly these requests: the repository-list pages 1 to j, all but the last with
  names; then, for each enumerated repository in enumeration order, its commit-list pages
  from 1 up to the first page that has status other than 200 or is empty, each request
  carrying \<open>since = start\<close> and \<open>until = end\<close>. The sequence returned is the concatenation of
  the commits of the successful commit-list responses, in that order of repositories and
  pages, nothing removed. A commit authored at the \<^verbatim>\<open>until\<close> instant is thus absent from
  a period, and present in the next, exactly when the endpoint answers so.
\<close>

theorem collection_is_what_upstream_served:
  assumes "get_user_commits org username since until w = Some (Inr cs, w')"
  shows "\<exists>j names ps.
           drop (length (log w)) (log w')
             = repo_requests org 1 j @ collection_requests org username since until (zip names ps)
         \<and> repo_pages_ok (server w) (length (log w)) (repo_requests org 1 j)
         \<and> names = listed_list (server w) (length (log w)) (repo_requests org 1 j)
         \<and> length ps = length names
         \<and> collection_ok (server w) (length (log w) + j) org username since until (zip names ps)
         \<and> cs = served_list (server w) (length (log w) + j)
                  (collection_requests org username since until (zip names ps))
         \<and> cs = served w w'"
proof -
  from assms obtain y where y: "org_repos_loop org 1 [] w = Some y"
    by (auto simp: get_user_commits_def get_org_repos_def split: option.splits)
  from assms y obtain names where names: "fst y = Inr names"
    by (cases y; cases "fst y"; auto simp: get_user_commits_def get_org_repos_def)
  from assms y names obtain z where
    z: "repos_loop org username since until names [] (snd y) = Some z"
    and res: "cs = fst z" "w' = snd z"
    by (cases y; auto simp: get_user_commits_def get_org_repos_def split: option.splits)
  let ?n = "length (log w)"
  from org_repos_loop_trace[OF y] names obtain j where
    j: "server (snd y) = server w" "log (snd y) = log w @ repo_requests org 1 (Suc j)"
       "names = listed_list (server w) ?n (repo_requests org 1 (Suc j))"
       "repo_pages_ok (server w) ?n (repo_requests org 1 (Suc j))"
    by auto
  from repos_loop_trace[OF z] obtain ps where
    ps: "server (snd z) = server (snd y)" "length ps = length names"
        "log (snd z) = log (snd y) @ collection_requests org username since until (zip names ps)"
        "collection_ok (server (snd y)) (length (log (snd y))) org username since until (zip names ps)"
        "fst z = served_list (server (snd y)) (length (log (snd y)))
                   (collection_requests org username since until (zip names ps))"
    by auto
  have len: "length (log (snd y)) = ?n + Suc j" using j(2) by simp
  have "drop ?n (log w')
          = repo_requests org 1 (Suc j) @ collection_requests org username since until (zip names ps)"
    using res j ps by simp
  moreover note j(4) j(3) ps(2)
  moreover have "collection_ok (server w) (?n + Suc j) org username since until (zip names ps)"
    using ps(4) j(1) len by simp
  moreover have "cs = served_list (server w) (?n + Suc j)
                  (collection_requests org username since until (zip names ps))"
    using ps(5) res j(1) len by simp
  moreover have "cs = served w w'"
    using get_user_commits_log[OF assms] by blast
  ultimately show ?thesis by blast
qed

theorem collection_is_what_upstream_served_witness:
  "\<exists>w'. get_user_commits ''acme'' ''dev'' (stamp 2024 2 1 0 0 0) (stamp 2024 3 1 0 0 0)
           inclusive_world = Some (Inr [boundary_commit], w')
      \<and> log w' = repo_requests ''acme'' 1 2
                   @ collection_requests ''acme'' ''dev'' (stamp 2024 2 1 0 0 0)
                       (stamp 2024 3 1 0 0 0) [(''A'', 2)]
      \<and> served inclusive_world w' = [boundary_commit]
      \<and> (\<exists>j names ps.
            drop (length (log inclusive_world)) (log w')
              = repo_requests ''acme'' 1 j
                  @ collection_requests ''acme'' ''dev'' (stamp 2024 2 1 0 0 0)
                      (stamp 2024 3 1 0 0 0) (zip names ps)
          \<and> repo_pages_ok (server inclusive_world) (length (log inclusive_world))
                (repo_requests ''acme'' 1 j)
          \<and> names = listed_list (server inclusive_world) (length (log inclusive_world))
                       (repo_requests ''acme'' 1 j)
          \<and> length ps = length names
          \<and> collection_ok (server inclusive_world) (length (log inclusive_world) + j)
                ''acme'' ''dev'' (stamp 2024 2 1 0 0 0) (stamp 2024 3 1 0 0 0) (zip names ps)
          \<and> [boundary_commit]
              = served_list (server inclusive_world) (length (log inclusive_world) + j)
                  (collection_requests ''acme'' ''dev'' (stamp 2024 2 1 0 0 0)
                     (stamp 2024 3 1 0 0 0) (zip names ps)))"
proof -
  from run_inclusive_february obtain w' where
    run: "get_user_commits ''acme'' ''dev'' (stamp 2024 2 1 0 0 0) (stamp 2024 3 1 0 0 0)
           inclusive_world = Some (Inr [boundary_commit], w')"
    by auto
  with run_inclusive_february_log have lg:
    "log w' = repo_requests ''acme'' 1 2
                @ collection_requests ''acme'' ''dev'' (stamp 2024 2 1 0 0 0)
                    (stamp 2024 3 1 0 0 0) [(''A'', 2)]"
    by simp
  from collection_is_what_upstream_served[OF run] obtain j names ps where
    shape: "drop (length (log inclusive_world)) (log w')
              = repo_requests ''acme'' 1 j
                  @ collection_requests ''acme'' ''dev'' (stamp 2024 2 1 0 0 0)
                      (stamp 2024 3 1 0 0 0) (zip names ps)"
      "repo_pages_ok (server inclusive_world) (length (log inclusive_world))
                (repo_requests ''acme'' 1 j)"
      "names = listed_list (server inclusive_world) (length (log inclusive_world))
                       (repo_requests ''acme'' 1 j)"
      "length ps = length names"
      "collection_ok (server inclusive_world) (length (log inclusive_world) + j)
                ''acme'' ''dev'' (stamp 2024 2 1 0 0 0) (stamp 2024 3 1 0 0 0) (zip names ps)"
      "[boundary_commit]
              = served_list (server inclusive_world) (length (log inclusive_world) + j)
                  (collection_requests ''acme'' ''dev'' (stamp 2024 2 1 0 0 0)
                     (stamp 2024 3 1 0 0 0) (zip names ps))"
    and srv: "[boundary_commit] = served inclusive_world w'"
    by blast
  from srv have srv': "served inclusive_world w' = [boundary_commit]" by (rule sym)
  from shape have ex: "\<exists>j names ps.
            drop (length (log inclusive_world)) (log w')
              = repo_requests ''acme'' 1 j
                  @ collection_requests ''acme'' ''dev'' (stamp 2024 2 1 0 0 0)
                      (stamp 2024 3 1 0 0 0) (zip names ps)
          \<and> repo_pages_ok (server inclusive_world) (length (log inclusive_world))
                (repo_requests ''acme'' 1 j)
          \<and> names = listed_list (server inclusive_world) (length (log inclusive_world))
                       (repo_requests ''acme'' 1 j)
          \<and> length ps = length names
          \<and> collection_ok (server inclusive_world) (length (log inclusive_world) + j)
                ''acme'' ''dev'' (stamp 2024 2 1 0 0 0) (stamp 2024 3 1 0 0 0) (zip names ps)
          \<and> [boundary_commit]
              = served_list (server inclusive_world) (length (log inclusive_world) + j)
                  (collection_requests ''acme'' ''dev'' (stamp 2024 2 1 0 0 0)
                     (stamp 2024 3 1 0 0 0) (zip names ps))"
    by (intro exI conjI)
  show ?thesis
    by (rule exI[of _ w']) (intro conjI run lg srv' ex)
qed

text \<open>
  Claim C9, as stated, fails: called with no organisation, no user name and a start after
  the end, \<^verbatim>\<open>get_user_commits\<close> raises nothing, requests the first repository page and
  returns the commits that the listings serve.
\<close>

theorem configuration_validation_counterexample:
  "seconds_of (stamp 2024 2 1 0 0 0) < seconds_of (stamp 2024 3 1 0 0 0)
   \<and> map_option fst (get_user_commits [] [] (stamp 2024 3 1 0 0 0) (stamp 2024 2 1 0 0 0)
        scenario_world) = Some (Inr scenario_commits)
   \<and> map_option (take 1 \<circ> log \<circ> snd)
        (get_user_commits [] [] (stamp 2024 3 1 0 0 0) (stamp 2024 2 1 0 0 0) scenario_world)
        = Some [GetOrgRepos [] 1]"
proof -
  have "seconds_of (stamp 2024 2 1 0 0 0) < seconds_of (stamp 2024 3 1 0 0 0)"
    by (simp add: stamp_def seconds_of_def toordinal_def days_before_year_def
          days_before_month_def is_leap_def)
  with run_reversed_range show ?thesis by simp
qed

text \<open>
  Claim C9, amended. There is no validation of the date range or of the identifiers:
  whenever \<^verbatim>\<open>get_user_commits\<close> returns, for any arguments, its first request was the first
  repository page, and its result is the fatal repository-list failure or the commits
  served. The one rejection made before any request is the ValueError of
  \<^verbatim>\<open>get_commit_stats\<close> when (year, month) is not a month that \<^verbatim>\<open>datetime\<close> accepts together
  with its successor: the world is then unchanged. For every other (year, month) it runs
  the collection on a range whose start lies strictly before its end.
\<close>

theorem no_configuration_validation:
  "(get_user_commits org username since until w = Some (res, w') \<longrightarrow>
      (\<exists>new. log w' = log w @ GetOrgRepos org 1 # new)
      \<and> (res = Inl Exception \<or> res = Inr (served w w')))
   \<and> (\<not> valid_month y m \<longrightarrow> get_commit_stats org username y m w = Some (Inl ValueError, w))
   \<and> (valid_month y m \<longrightarrow>
        (\<exists>start_date end_date.
           seconds_of start_date < seconds_of end_date
         \<and> get_commit_stats org username y m w =
             (case get_user_commits org username start_date end_date w of
                None \<Rightarrow> None
              | Some (Inl e, w1) \<Rightarrow> Some (Inl e, w1)
              | Some (Inr cs, w1) \<Rightarrow> Some (aggregate org cs w1))))"
proof (intro conjI impI)
  assume "get_user_commits org username since until w = Some (res, w')"
  from get_user_commits_log[OF this]
  show "\<exists>new. log w' = log w @ GetOrgRepos org 1 # new"
    and "res = Inl Exception \<or> res = Inr (served w w')"
    by auto
next
  assume "\<not> valid_month y m"
  then show "get_commit_stats org username y m w = Some (Inl ValueError, w)"
    by (simp add: get_commit_stats_range)
next
  assume v: "valid_month y m"
  let ?s = "stamp y m 1 0 0 0"
  let ?e = "if m = 12 then stamp (y + 1) 1 1 0 0 0 else stamp y (m + 1) 1 0 0 0"
  have "seconds_of ?s < seconds_of ?e" by (rule month_range_ordered[OF v])
  moreover have "get_commit_stats org username y m w =
             (case get_user_commits org username ?s ?e w of
                None \<Rightarrow> None
              | Some (Inl e, w1) \<Rightarrow> Some (Inl e, w1)
              | Some (Inr cs, w1) \<Rightarrow> Some (aggregate org cs w1))"
    using v by (simp only: get_commit_stats_range if_True)
  ultimately show "\<exists>start_date end_date.
           seconds_of start_date < seconds_of end_date
         \<and> get_commit_stats org username y m w =
             (case get_user_commits org username start_date end_date w of
                None \<Rightarrow> None
              | Some (Inl e, w1) \<Rightarrow> Some (Inl e, w1)
              | Some (Inr cs, w1) \<Rightarrow> Some (aggregate org cs w1))"
    by blast
qed

theorem no_configuration_validation_witness:
  "(\<exists>w'. get_user_commits [] [] (stamp 2024 3 1 0 0 0) (stamp 2024 2 1 0 0 0) scenario_world
            = Some (Inr scenario_commits, w')
        \<and> (\<exists>new. log w' = log scenario_world @ GetOrgRepos [] 1 # new))
   \<and> valid_month 2024 13 = False
   \<and> get_commit_stats [] [] 2024 13 scenario_world = Some (Inl ValueError, scenario_world)
   \<and> valid_month 2024 3
   \<and> (\<exists>start_date end_date.
           seconds_of start_date < seconds_of end_date
         \<and> get_commit_stats ''acme'' ''dev'' 2024 3 scenario_world =
             (case get_user_commits ''acme'' ''dev'' start_date end_date scenario_world of
                None \<Rightarrow> None
              | Some (Inl e, w1) \<Rightarrow> Some (Inl e, w1)
              | Some (Inr cs, w1) \<Rightarrow> Some (aggregate ''acme'' cs w1)))"
proof -
  from run_reversed_range(1) obtain w' where
    run: "get_user_commits [] [] (stamp 2024 3 1 0 0 0) (stamp 2024 2 1 0 0 0) scenario_world
            = Some (Inr scenario_commits, w')"
    by auto
  have inv: "\<not> valid_month 2024 13" and val: "valid_month 2024 3"
    by (simp_all add: valid_month_def)
  from no_configuration_validation[of "[]" "[]" "stamp 2024 3 1 0 0 0" "stamp 2024 2 1 0 0 0"
      scenario_world "Inr scenario_commits" w' 2024 13] run inv
  have a: "\<exists>new. log w' = log scenario_world @ GetOrgRepos [] 1 # new"
    and b: "get_commit_stats [] [] 2024 13 scenario_world = Some (Inl ValueError, scenario_world)"
    by blast+
  from no_configuration_validation[of "''acme''" "''dev''" "stamp 2024 3 1 0 0 0" "stamp 2024 2 1 0 0 0"
      scenario_world "Inr scenario_commits" w' 2024 3] val
  have c: "\<exists>start_date end_date.
           seconds_of start_date < seconds_of end_date
         \<and> get_commit_stats ''acme'' ''dev'' 2024 3 scenario_world =
             (case get_user_commits ''acme'' ''dev'' start_date end_date scenario_world of
                None \<Rightarrow> None
              | Some (Inl e, w1) \<Rightarrow> Some (Inl e, w1)
              | Some (Inr cs, w1) \<Rightarrow> Some (aggregate ''acme'' cs w1))"
    by blast
  from run a b c inv val show ?thesis by blast
qed

end
